theory Spec2Isabelle
  imports Main "HOL-Library.Word"
begin

unbundle bit_operations_syntax

section \<open>Buffers and the primitives of the runtime\<close>

text \<open>
  A Buffer is a sequence of bytes. JavaScript numbers are modelled as \<open>int\<close> wherever a
  subtraction or a 32-bit shift could leave the naturals, and as \<open>nat\<close> for the fields of a
  decoded image and for loop counters that only count upwards from 0.

  The accessors of Buffer throw when the offset leaves the buffer or the value does not fit
  the field. Both conditions are the one error \<open>ERR_OUT_OF_RANGE\<close> here. A rejected promise
  or an exception of an external collaborator (the PNG parser, the size probe, the resizer)
  is \<open>Rejected\<close> with its message.
\<close>

type_synonym byte = "8 word"
type_synonym buffer = "byte list"

datatype error = ERR_OUT_OF_RANGE | Rejected string

definition bind_err :: "error + 'a \<Rightarrow> ('a \<Rightarrow> error + 'b) \<Rightarrow> error + 'b" where
  "bind_err m f = (case m of Inl e \<Rightarrow> Inl e | Inr v \<Rightarrow> f v)"

definition bufferAlloc :: "nat \<Rightarrow> buffer" where
  "bufferAlloc n = replicate n 0"

definition readUInt8 :: "buffer \<Rightarrow> int \<Rightarrow> error + int" where
  "readUInt8 buf off =
     (if 0 \<le> off \<and> off + 1 \<le> int (length buf) then Inr (uint (buf ! nat off))
      else Inl ERR_OUT_OF_RANGE)"

definition writeUInt8 :: "int \<Rightarrow> int \<Rightarrow> buffer \<Rightarrow> error + buffer" where
  "writeUInt8 v off buf =
     (if 0 \<le> v \<and> v \<le> 255 \<and> 0 \<le> off \<and> off + 1 \<le> int (length buf)
      then Inr (buf[nat off := word_of_int v])
      else Inl ERR_OUT_OF_RANGE)"

definition writeUInt16LE :: "int \<Rightarrow> int \<Rightarrow> buffer \<Rightarrow> error + buffer" where
  "writeUInt16LE v off buf =
     (if 0 \<le> v \<and> v \<le> 65535 \<and> 0 \<le> off \<and> off + 2 \<le> int (length buf)
      then Inr (buf[nat off := word_of_int v, nat off + 1 := word_of_int (v div 256)])
      else Inl ERR_OUT_OF_RANGE)"

definition write32 :: "int \<Rightarrow> int \<Rightarrow> buffer \<Rightarrow> buffer" where
  "write32 v off buf =
     buf[nat off := word_of_int v,
         nat off + 1 := word_of_int (v div 256),
         nat off + 2 := word_of_int (v div 65536),
         nat off + 3 := word_of_int (v div 16777216)]"

definition writeUInt32LE :: "int \<Rightarrow> int \<Rightarrow> buffer \<Rightarrow> error + buffer" where
  "writeUInt32LE v off buf =
     (if 0 \<le> v \<and> v \<le> 4294967295 \<and> 0 \<le> off \<and> off + 4 \<le> int (length buf)
      then Inr (write32 v off buf)
      else Inl ERR_OUT_OF_RANGE)"

definition writeInt32LE :: "int \<Rightarrow> int \<Rightarrow> buffer \<Rightarrow> error + buffer" where
  "writeInt32LE v off buf =
     (if - 2147483648 \<le> v \<and> v \<le> 2147483647 \<and> 0 \<le> off \<and> off + 4 \<le> int (length buf)
      then Inr (write32 v off buf)
      else Inl ERR_OUT_OF_RANGE)"

text \<open>
  \<open>Buffer.concat(list, totalLength)\<close> allocates \<open>totalLength\<close> zero bytes and copies the
  buffers of the list into them one after the other, cutting what does not fit.
\<close>

definition Buffer_concat :: "buffer list \<Rightarrow> nat \<Rightarrow> buffer" where
  "Buffer_concat arr len =
     (let bytes = concat arr in take len bytes @ replicate (len - length bytes) 0)"

text \<open>Readers of little-endian fields, used to state what a written buffer holds.\<close>

definition u8_at :: "buffer \<Rightarrow> nat \<Rightarrow> int" where
  "u8_at buf off = uint (buf ! off)"

definition u16_at :: "buffer \<Rightarrow> nat \<Rightarrow> int" where
  "u16_at buf off = uint (buf ! off) + 256 * uint (buf ! (off + 1))"

definition u32_at :: "buffer \<Rightarrow> nat \<Rightarrow> int" where
  "u32_at buf off =
     uint (buf ! off) + 256 * uint (buf ! (off + 1)) + 65536 * uint (buf ! (off + 2))
     + 16777216 * uint (buf ! (off + 3))"

section \<open>The decoded image and the constants\<close>

record image =
  width :: nat
  height :: nat
  bpp :: nat
  data :: buffer

definition bitmapSize :: nat where "bitmapSize = 40"
definition colorMode :: int where "colorMode = 0"
definition directorySize :: nat where "directorySize = 16"
definition headerSize :: nat where "headerSize = 6"

section \<open>Header, directory entry and bitmap header\<close>

definition createHeader :: "nat \<Rightarrow> error + buffer" where
  "createHeader n =
     bind_err (writeUInt16LE 0 0 (bufferAlloc headerSize)) (\<lambda>buf.
     bind_err (writeUInt16LE 1 2 buf) (\<lambda>buf.
     writeUInt16LE (int n) 4 buf))"

text \<open>
  The shifts of \<open>getMaskScanWidth\<close> work on 32-bit signed integers: each operand is first
  reduced to that range, and so is the result of the left shift.
\<close>

definition toInt32 :: "int \<Rightarrow> int" where
  "toInt32 k = signed_take_bit 31 k"

definition getMaskScanWidth :: "nat \<Rightarrow> int" where
  "getMaskScanWidth w = toInt32 (push_bit 2 (drop_bit 5 (toInt32 (int w + 31))))"

definition createDirectory :: "image \<Rightarrow> int \<Rightarrow> error + (buffer \<times> int)" where
  "createDirectory x offset =
     (let buf = bufferAlloc directorySize;
          mask = (if bpp x = 4 then getMaskScanWidth (width x) * int (height x) else 0);
          size = int (length (data x)) + int bitmapSize + mask;
          w = (if width x = 256 then 0 else int (width x));
          h = (if height x = 256 then 0 else int (height x));
          b = int (bpp x) * 8
      in bind_err (writeUInt8 w 0 buf) (\<lambda>buf.
         bind_err (writeUInt8 h 1 buf) (\<lambda>buf.
         bind_err (writeUInt8 0 2 buf) (\<lambda>buf.
         bind_err (writeUInt8 0 3 buf) (\<lambda>buf.
         bind_err (writeUInt16LE 1 4 buf) (\<lambda>buf.
         bind_err (writeUInt16LE b 6 buf) (\<lambda>buf.
         bind_err (writeUInt32LE size 8 buf) (\<lambda>buf.
         bind_err (writeUInt32LE offset 12 buf) (\<lambda>buf.
         Inr (buf, size))))))))))"

definition createBitmap :: "image \<Rightarrow> int \<Rightarrow> error + buffer" where
  "createBitmap x compression =
     bind_err (writeUInt32LE (int bitmapSize) 0 (bufferAlloc bitmapSize)) (\<lambda>buf.
     bind_err (writeInt32LE (int (width x)) 4 buf) (\<lambda>buf.
     bind_err (writeInt32LE (int (height x) * 2) 8 buf) (\<lambda>buf.
     bind_err (writeUInt16LE 1 12 buf) (\<lambda>buf.
     bind_err (writeUInt16LE (int (bpp x) * 8) 14 buf) (\<lambda>buf.
     bind_err (writeUInt32LE compression 16 buf) (\<lambda>buf.
     bind_err (writeUInt32LE (int (length (data x))) 20 buf) (\<lambda>buf.
     bind_err (writeInt32LE 0 24 buf) (\<lambda>buf.
     bind_err (writeInt32LE 0 28 buf) (\<lambda>buf.
     bind_err (writeUInt32LE 0 32 buf) (\<lambda>buf.
     writeUInt32LE 0 36 buf))))))))))"

section \<open>Pixel transposer\<close>

text \<open>
  The two nested loops of \<open>createDib\<close>. The source keeps \<open>cols = width * bpp\<close> in a
  variable; the loops here receive \<open>width\<close> and \<open>bpp\<close> and form the product themselves,
  which is what makes them terminate (a step of \<open>bpp = 0\<close> only occurs with \<open>cols = 0\<close>).
  Four bytes are read and written for every pixel, whatever \<open>bpp\<close> is.
\<close>

function createDib_cols ::
  "buffer \<Rightarrow> nat \<Rightarrow> nat \<Rightarrow> int \<Rightarrow> nat \<Rightarrow> nat \<Rightarrow> buffer \<Rightarrow> error + buffer" where
  "createDib_cols dat w b end row col buf =
     (if col < w * b then
        bind_err (readUInt8 dat (int (row + col))) (\<lambda>r.
        bind_err (readUInt8 dat (int (row + col) + 1)) (\<lambda>g.
        bind_err (readUInt8 dat (int (row + col) + 2)) (\<lambda>bl.
        bind_err (readUInt8 dat (int (row + col) + 3)) (\<lambda>a.
        bind_err (writeUInt8 bl (end - int row + int col) buf) (\<lambda>buf.
        bind_err (writeUInt8 g (end - int row + int col + 1) buf) (\<lambda>buf.
        bind_err (writeUInt8 r (end - int row + int col + 2) buf) (\<lambda>buf.
        bind_err (writeUInt8 a (end - int row + int col + 3) buf) (\<lambda>buf.
        createDib_cols dat w b end row (col + b) buf))))))))
      else Inr buf)"
  by pat_completeness auto
termination
  apply (relation "measure (\<lambda>(dat, w, b, end, row, col, buf). w * b - col)")
   apply simp
  apply clarsimp
  subgoal for w b col by (cases b) auto
  done

declare createDib_cols.simps [simp del]

function createDib_rows ::
  "buffer \<Rightarrow> nat \<Rightarrow> nat \<Rightarrow> nat \<Rightarrow> nat \<Rightarrow> buffer \<Rightarrow> error + buffer" where
  "createDib_rows dat w h b row buf =
     (if row < h * (w * b) then
        bind_err (createDib_cols dat w b (int (h * (w * b)) - int (w * b)) row 0 buf) (\<lambda>buf.
        createDib_rows dat w h b (row + w * b) buf)
      else Inr buf)"
  by pat_completeness auto
termination
  apply (relation "measure (\<lambda>(dat, w, h, b, row, buf). h * (w * b) - row)")
   apply simp
  apply clarsimp
  subgoal for w h b row by (cases "w * b") auto
  done

declare createDib_rows.simps [simp del]

definition createDib :: "buffer \<Rightarrow> nat \<Rightarrow> nat \<Rightarrow> nat \<Rightarrow> error + buffer" where
  "createDib dat w h b = createDib_rows dat w h b 0 (bufferAlloc (length dat))"

section \<open>Mask packer\<close>

text \<open>
  The loop over full groups of eight pixels: it carries \<open>srcPos\<close> and \<open>dstPos\<close> and hands
  both back to the row loop, as the variables of the source outlive it.
\<close>

function createMask_full ::
  "buffer \<Rightarrow> nat \<Rightarrow> int \<Rightarrow> nat \<Rightarrow> nat \<Rightarrow> int \<Rightarrow> buffer \<Rightarrow> error + (nat \<times> int \<times> buffer)" where
  "createMask_full dat w t x srcPos dstPos buf =
     (if int x < int w - 7 then
        bind_err (readUInt8 dat (int srcPos)) (\<lambda>a0.
        bind_err (readUInt8 dat (int srcPos + 4)) (\<lambda>a1.
        bind_err (readUInt8 dat (int srcPos + 8)) (\<lambda>a2.
        bind_err (readUInt8 dat (int srcPos + 12)) (\<lambda>a3.
        bind_err (readUInt8 dat (int srcPos + 16)) (\<lambda>a4.
        bind_err (readUInt8 dat (int srcPos + 20)) (\<lambda>a5.
        bind_err (readUInt8 dat (int srcPos + 24)) (\<lambda>a6.
        bind_err (readUInt8 dat (int srcPos + 28)) (\<lambda>a7.
        bind_err (writeUInt8
            ((if a0 \<ge> t then 0 else 128) OR (if a1 \<ge> t then 0 else 64)
             OR (if a2 \<ge> t then 0 else 32) OR (if a3 \<ge> t then 0 else 16)
             OR (if a4 \<ge> t then 0 else 8) OR (if a5 \<ge> t then 0 else 4)
             OR (if a6 \<ge> t then 0 else 2) OR (if a7 \<ge> t then 0 else 1))
            dstPos buf) (\<lambda>buf.
        createMask_full dat w t (x + 8) (srcPos + 32) (dstPos + 1) buf)))))))))
      else Inr (srcPos, dstPos, buf))"
  by pat_completeness auto
termination
  by (relation "measure (\<lambda>(dat, w, t, x, srcPos, dstPos, buf). w - x)") auto

declare createMask_full.simps [simp del]

text \<open>The loop over the last \<open>width % 8\<close> pixels of a row, which builds one byte.\<close>

function createMask_rest ::
  "buffer \<Rightarrow> nat \<Rightarrow> int \<Rightarrow> nat \<Rightarrow> nat \<Rightarrow> int \<Rightarrow> error + (nat \<times> int)" where
  "createMask_rest dat w t x srcPos msk =
     (if x < w mod 8 then
        bind_err (readUInt8 dat (int srcPos)) (\<lambda>a.
        createMask_rest dat w t (x + 1) (srcPos + 4)
          (msk OR (if a \<ge> t then 0 else 2 ^ (7 - x))))
      else Inr (srcPos, msk))"
  by pat_completeness auto
termination
  by (relation "measure (\<lambda>(dat, w, t, x, srcPos, msk). w mod 8 - x)") auto

declare createMask_rest.simps [simp del]

function createMask_rows ::
  "buffer \<Rightarrow> nat \<Rightarrow> nat \<Rightarrow> int \<Rightarrow> int \<Rightarrow> nat \<Rightarrow> nat \<Rightarrow> buffer \<Rightarrow> error + buffer" where
  "createMask_rows dat w h t scanWidth y srcPos buf =
     (if y < h then
        bind_err (createMask_full dat w t 0 srcPos (int y * scanWidth) buf)
          (\<lambda>(srcPos, dstPos, buf).
        bind_err
          (if w mod 8 \<noteq> 0 then
             bind_err (createMask_rest dat w t 0 srcPos 0) (\<lambda>(srcPos, mask).
             bind_err (writeUInt8 mask dstPos buf) (\<lambda>buf.
             Inr (srcPos, buf)))
           else Inr (srcPos, buf))
          (\<lambda>(srcPos, buf).
        createMask_rows dat w h t scanWidth (y + 1) srcPos buf))
      else Inr buf)"
  by pat_completeness auto
termination
  by (relation "measure (\<lambda>(dat, w, h, t, scanWidth, y, srcPos, buf). h - y)") auto

declare createMask_rows.simps [simp del]

text \<open>Allocating a buffer of negative size throws.\<close>

definition createMask :: "buffer \<Rightarrow> nat \<Rightarrow> nat \<Rightarrow> int \<Rightarrow> error + buffer" where
  "createMask dat w h threshold =
     (let scanWidth = getMaskScanWidth w in
      if scanWidth * int h < 0 then Inl ERR_OUT_OF_RANGE
      else createMask_rows dat w h threshold scanWidth 0 3
             (bufferAlloc (nat (scanWidth * int h))))"

section \<open>Assembling the file\<close>

text \<open>
  \<open>generateIco\<close> first awaits the decoding of every input and then runs the function
  \<open>generateIco_then\<close> on the decoded images. Its first loop, \<open>generateIco_dirs\<close>, pushes one
  directory entry per image and advances \<open>len\<close> and \<open>offset\<close>; the second,
  \<open>generateIco_blocks\<close>, pushes the three buffers that \<open>createBlock\<close> (the body of that loop)
  makes for an image.
\<close>

fun generateIco_dirs ::
  "image list \<Rightarrow> buffer list \<Rightarrow> nat \<Rightarrow> int \<Rightarrow> error + (buffer list \<times> nat \<times> int)" where
  "generateIco_dirs [] arr len offset = Inr (arr, len, offset)"
| "generateIco_dirs (x # xs) arr len offset =
     bind_err (createDirectory x offset) (\<lambda>(buf, size).
     generateIco_dirs xs (arr @ [buf]) (len + length buf) (offset + size))"

definition createBlock :: "image \<Rightarrow> error + (buffer \<times> buffer \<times> buffer)" where
  "createBlock x =
     bind_err (createBitmap x colorMode) (\<lambda>header.
     bind_err (createDib (data x) (width x) (height x) (bpp x)) (\<lambda>dib.
     bind_err (if bpp x = 4 then createMask dib (width x) (height x) 1
               else Inr (bufferAlloc 0)) (\<lambda>msk.
     Inr (header, dib, msk))))"

fun generateIco_blocks ::
  "image list \<Rightarrow> buffer list \<Rightarrow> nat \<Rightarrow> error + (buffer list \<times> nat)" where
  "generateIco_blocks [] arr len = Inr (arr, len)"
| "generateIco_blocks (x # xs) arr len =
     bind_err (createBlock x) (\<lambda>(header, dib, msk).
     generateIco_blocks xs (arr @ [header, dib, msk])
       (len + (length header + length dib + length msk)))"

definition generateIco_then :: "image list \<Rightarrow> error + buffer" where
  "generateIco_then imgs =
     bind_err (createHeader (length imgs)) (\<lambda>header.
     bind_err (generateIco_dirs imgs [header] (length header)
                 (int headerSize + int directorySize * int (length imgs))) (\<lambda>(arr, len, offset).
     bind_err (generateIco_blocks imgs arr len) (\<lambda>(arr, len).
     Inr (Buffer_concat arr len))))"

text \<open>
  \<open>Promise.all\<close> and a \<open>map\<close> whose function may throw both give the list of all values or
  one error. The error is the one of the first failing element of the list (a promise that
  rejects earlier in time could win in the runtime; no statement below depends on which
  error it is).
\<close>

fun Promise_all :: "(error + 'a) list \<Rightarrow> error + 'a list" where
  "Promise_all [] = Inr []"
| "Promise_all (p # ps) =
     bind_err p (\<lambda>v. bind_err (Promise_all ps) (\<lambda>vs. Inr (v # vs)))"

text \<open>The decoder \<open>parsePng\<close> is a parameter: a source either decodes to an image or fails.\<close>

definition generateIco :: "('src \<Rightarrow> error + image) \<Rightarrow> 'src list \<Rightarrow> error + buffer" where
  "generateIco parsePng srcs = bind_err (Promise_all (map parsePng srcs)) generateIco_then"

section \<open>Resizing and the entry point\<close>

record 'src sized =
  s_data :: 'src
  s_width :: nat
  s_height :: nat

text \<open>
  The callback of \<open>reduce\<close>. The initial accumulator is the empty object, whose \<open>width\<close> is
  undefined, so that the comparison is false and the element wins: that is \<open>None\<close> here.
\<close>

definition widest :: "'src sized option \<Rightarrow> 'src sized \<Rightarrow> 'src sized option" where
  "widest a b =
     (case a of None \<Rightarrow> Some b
      | Some a' \<Rightarrow> if s_width a' > s_width b then Some a' else Some b)"

text \<open>
  \<open>imageSize\<close> (which may throw) and \<open>resizeImg\<close> (a promise) are parameters. With no
  input at all the accumulator stays the empty object, no size passes the filter and
  \<open>resizeImg\<close> is never called.
\<close>

definition resizeImages ::
  "('src \<Rightarrow> error + (nat \<times> nat)) \<Rightarrow> ('src \<Rightarrow> nat \<Rightarrow> nat \<Rightarrow> error + 'src)
   \<Rightarrow> 'src list \<Rightarrow> nat list \<Rightarrow> error + 'src list" where
  "resizeImages imageSize resizeImg dat sizes =
     bind_err (Promise_all (map (\<lambda>x. bind_err (imageSize x) (\<lambda>(w, h).
                 Inr \<lparr>s_data = x, s_width = w, s_height = h\<rparr>)) dat)) (\<lambda>sized.
     case foldl widest None sized of
       None \<Rightarrow> Promise_all []
     | Some d \<Rightarrow>
         Promise_all (map (\<lambda>x. resizeImg (s_data d) x x)
                        (filter (\<lambda>x. x \<le> s_width d) sizes)))"

text \<open>
  The options object: the code reads \<open>resize\<close> and \<open>sizes\<close> and gives each its default when
  the caller left it out. Whatever else the caller puts into the object is the extension of
  the record, which the code never looks at. The input is the array that \<open>arrify\<close> returns.
\<close>

record options =
  resize :: "bool option"
  sizes :: "nat list option"

definition toIco ::
  "('src \<Rightarrow> error + image) \<Rightarrow> ('src \<Rightarrow> error + (nat \<times> nat))
   \<Rightarrow> ('src \<Rightarrow> nat \<Rightarrow> nat \<Rightarrow> error + 'src)
   \<Rightarrow> 'src list \<Rightarrow> 'more options_scheme \<Rightarrow> error + buffer" where
  "toIco parsePng imageSize resizeImg input opts =
     (let rs = (case resize opts of None \<Rightarrow> False | Some r \<Rightarrow> r);
          ss = (case sizes opts of None \<Rightarrow> [16, 24, 32, 48, 64, 128, 256] | Some s \<Rightarrow> s)
      in if rs then bind_err (resizeImages imageSize resizeImg input ss) (generateIco parsePng)
         else generateIco parsePng input)"

section \<open>Notions for stating the properties\<close>

text \<open>
  The byte of a directory entry for a dimension, the size of a block as the directory records
  it, the little-endian bytes of a field, the sixteen bytes of a directory entry and the
  forty bytes of a bitmap header, and the invariant of a decoded image (dimensions from 1 to
  256, three or four bytes per pixel, a pixel buffer of exactly the size they give).
\<close>

definition dim_byte :: "nat \<Rightarrow> int" where
  "dim_byte n = (if n = 256 then 0 else int n)"

definition block_size :: "image \<Rightarrow> int" where
  "block_size x = int (length (data x)) + int bitmapSize
     + (if bpp x = 4 then getMaskScanWidth (width x) * int (height x) else 0)"

definition le16_bytes :: "int \<Rightarrow> buffer" where
  "le16_bytes v = [word_of_int v, word_of_int (v div 256)]"

definition le32_bytes :: "int \<Rightarrow> buffer" where
  "le32_bytes v =
     [word_of_int v, word_of_int (v div 256), word_of_int (v div 65536),
      word_of_int (v div 16777216)]"

definition directory_bytes :: "image \<Rightarrow> int \<Rightarrow> buffer" where
  "directory_bytes x off =
     [word_of_int (dim_byte (width x)), word_of_int (dim_byte (height x)), 0, 0]
     @ le16_bytes 1 @ le16_bytes (int (bpp x) * 8)
     @ le32_bytes (block_size x) @ le32_bytes off"

definition bitmap_bytes :: "image \<Rightarrow> int \<Rightarrow> buffer" where
  "bitmap_bytes x c =
     le32_bytes 40 @ le32_bytes (int (width x)) @ le32_bytes (int (height x) * 2)
     @ le16_bytes 1 @ le16_bytes (int (bpp x) * 8) @ le32_bytes c
     @ le32_bytes (int (length (data x)))
     @ le32_bytes 0 @ le32_bytes 0 @ le32_bytes 0 @ le32_bytes 0"

definition valid_image :: "image \<Rightarrow> bool" where
  "valid_image x \<longleftrightarrow>
     1 \<le> width x \<and> width x \<le> 256 \<and> 1 \<le> height x \<and> height x \<le> 256
     \<and> (bpp x = 3 \<or> bpp x = 4) \<and> length (data x) = width x * height x * bpp x"

text \<open>
  Where the transposer takes a byte from, at four bytes per pixel: \<open>swap_rb\<close> exchanges the
  first and the third byte of every group of four, and \<open>dib_source w h i\<close> is the index in
  the source of byte \<open>i\<close> of the result (the row mirrored, the channel exchanged).
\<close>

definition swap_rb :: "nat \<Rightarrow> nat" where
  "swap_rb j = (if j mod 4 = 0 then j + 2 else if j mod 4 = 2 then j - 2 else j)"

definition dib_source :: "nat \<Rightarrow> nat \<Rightarrow> nat \<Rightarrow> nat" where
  "dib_source w h i = (h - 1 - i div (w * 4)) * (w * 4) + swap_rb (i mod (w * 4))"

text \<open>
  For the mask: \<open>alpha_below dat t p\<close> says that pixel \<open>p\<close> of a buffer of four bytes per
  pixel has an alpha byte below the threshold; \<open>group_mask\<close> names the byte that the loop over
  full groups computes from eight alpha values; \<open>createMask_row\<close> is the body of the loop over
  the rows, one row of the mask.
\<close>

definition alpha_below :: "buffer \<Rightarrow> int \<Rightarrow> nat \<Rightarrow> bool" where
  "alpha_below dat t p \<longleftrightarrow> uint (dat ! (4 * p + 3)) < t"

definition group_mask :: "int \<Rightarrow> int \<Rightarrow> int \<Rightarrow> int \<Rightarrow> int \<Rightarrow> int \<Rightarrow> int \<Rightarrow> int \<Rightarrow> int \<Rightarrow> int" where
  "group_mask t a0 a1 a2 a3 a4 a5 a6 a7 =
     (if a0 \<ge> t then 0 else 128) OR (if a1 \<ge> t then 0 else 64)
     OR (if a2 \<ge> t then 0 else 32) OR (if a3 \<ge> t then 0 else 16)
     OR (if a4 \<ge> t then 0 else 8) OR (if a5 \<ge> t then 0 else 4)
     OR (if a6 \<ge> t then 0 else 2) OR (if a7 \<ge> t then 0 else 1)"

definition createMask_row ::
  "buffer \<Rightarrow> nat \<Rightarrow> int \<Rightarrow> int \<Rightarrow> nat \<Rightarrow> nat \<Rightarrow> buffer \<Rightarrow> error + (nat \<times> buffer)" where
  "createMask_row dat w t scanWidth y srcPos buf =
     bind_err (createMask_full dat w t 0 srcPos (int y * scanWidth) buf)
       (\<lambda>(srcPos, dstPos, buf).
          if w mod 8 \<noteq> 0 then
            bind_err (createMask_rest dat w t 0 srcPos 0) (\<lambda>(srcPos, msk).
            bind_err (writeUInt8 msk dstPos buf) (\<lambda>buf.
            Inr (srcPos, buf)))
          else Inr (srcPos, buf))"

text \<open>
  For the assembled file: the directory entries of a list of images whose first block starts
  at a given offset, the bytes of a block, the bytes of the header, and the two 32-bit fields
  of directory entry \<open>i\<close> read back from a file.
\<close>

fun dir_entries :: "image list \<Rightarrow> int \<Rightarrow> buffer list" where
  "dir_entries [] off = []"
| "dir_entries (x # xs) off = directory_bytes x off # dir_entries xs (off + block_size x)"

definition block_bytes :: "buffer \<times> buffer \<times> buffer \<Rightarrow> buffer" where
  "block_bytes p = (case p of (bh, dib, m) \<Rightarrow> bh @ dib @ m)"

definition header_bytes :: "nat \<Rightarrow> buffer" where
  "header_bytes n = [0, 0] @ le16_bytes 1 @ le16_bytes (int n)"

definition dir_blockSize :: "buffer \<Rightarrow> nat \<Rightarrow> int" where
  "dir_blockSize out i = u32_at out (6 + 16 * i + 8)"

definition dir_fileOffset :: "buffer \<Rightarrow> nat \<Rightarrow> int" where
  "dir_fileOffset out i = u32_at out (6 + 16 * i + 12)"

text \<open>Two images and the file the encoder makes of them.\<close>

definition example_images :: "image list" where
  "example_images =
     [\<lparr>width = 1, height = 1, bpp = 4, data = [1, 2, 3, 0]\<rparr>,
      \<lparr>width = 2, height = 1, bpp = 4, data = [1, 2, 3, 255, 5, 6, 7, 0]\<rparr>]"

definition example_ico :: buffer where
  "example_ico =
     [0, 0, 1, 0, 2, 0,
      1, 1, 0, 0, 1, 0, 32, 0, 48, 0, 0, 0, 38, 0, 0, 0,
      2, 1, 0, 0, 1, 0, 32, 0, 52, 0, 0, 0, 86, 0, 0, 0,
      40, 0, 0, 0, 1, 0, 0, 0, 2, 0, 0, 0, 1, 0, 32, 0, 0, 0, 0, 0, 4, 0, 0, 0,
      0, 0, 0, 0, 0, 0, 0, 0, 0, 0, 0, 0, 0, 0, 0, 0,
      3, 2, 1, 0,
      128, 0, 0, 0,
      40, 0, 0, 0, 2, 0, 0, 0, 2, 0, 0, 0, 1, 0, 32, 0, 0, 0, 0, 0, 8, 0, 0, 0,
      0, 0, 0, 0, 0, 0, 0, 0, 0, 0, 0, 0, 0, 0, 0, 0,
      3, 2, 1, 255, 7, 6, 5, 0,
      64, 0, 0, 0]"

text \<open>A computation whose only possible error is the out-of-range error.\<close>

definition range_error_only :: "error + 'a \<Rightarrow> bool" where
  "range_error_only m \<longleftrightarrow> (\<forall>e. m = Inl e \<longrightarrow> e = ERR_OUT_OF_RANGE)"



text \<open>
  Collaborators for the examples: inputs that are decoded images already, and a resizer that
  returns an opaque white square.
\<close>

definition decoded_parsePng :: "image \<Rightarrow> error + image" where
  "decoded_parsePng x = Inr x"

definition decoded_dims :: "image \<Rightarrow> nat \<times> nat" where
  "decoded_dims x = (width x, height x)"

definition decoded_imageSize :: "image \<Rightarrow> error + (nat \<times> nat)" where
  "decoded_imageSize x = Inr (decoded_dims x)"

definition solid_resizeImg :: "image \<Rightarrow> nat \<Rightarrow> nat \<Rightarrow> error + image" where
  "solid_resizeImg x w h =
     Inr \<lparr>width = w, height = h, bpp = 4, data = replicate (w * h * 4) 255\<rparr>"

text \<open>Options that carry a \<open>maskThreshold\<close> besides what the code reads.\<close>

record options_mt = options +
  maskThreshold :: int









section \<open>Bytes of the headers\<close>

lemma bind_err_Inr [simp]: "bind_err (Inr v) f = f v"
  by (simp add: bind_err_def)

lemma bind_err_Inl [simp]: "bind_err (Inl e) f = Inl e"
  by (simp add: bind_err_def)

lemma bind_err_eq_Inr:
  "bind_err m f = Inr r \<longleftrightarrow> (\<exists>v. m = Inr v \<and> f v = Inr r)"
  by (cases m) simp_all

lemma list_update_Cons_numeral:
  "(x # xs)[numeral v := y] = x # xs[numeral v - 1 := y]"
  by (simp add: numeral_eq_Suc)

lemma bufferAlloc_6: "bufferAlloc 6 = [0,0,0,0,0,0]"
  by (simp add: bufferAlloc_def numeral_eq_Suc)

lemma bufferAlloc_16: "bufferAlloc 16 = [0,0,0,0,0,0,0,0,0,0,0,0,0,0,0,0]"
  by (simp add: bufferAlloc_def numeral_eq_Suc)

lemma bufferAlloc_40:
  "bufferAlloc 40 = [0,0,0,0,0,0,0,0,0,0, 0,0,0,0,0,0,0,0,0,0, 0,0,0,0,0,0,0,0,0,0, 0,0,0,0,0,0,0,0,0,0]"
  by (simp add: bufferAlloc_def numeral_eq_Suc)

lemma uint_byte_of_int: "uint (word_of_int v :: byte) = v mod 256"
  by (simp add: uint_word_of_int)

lemma le32_split:
  fixes v :: int
  assumes "0 \<le> v" "v \<le> 4294967295"
  shows "v mod 256 + 256 * (v div 256 mod 256) + 65536 * (v div 65536 mod 256)
        + 16777216 * (v div 16777216 mod 256) = v"
proof -
  define a where "a = v div 256"
  define b where "b = a div 256"
  define c where "c = b div 256"
  have b_eq: "v div 65536 = b"
    using zdiv_zmult2_eq [of 256 v 256] by (simp add: a_def b_def)
  have c_eq: "v div 16777216 = c"
    using zdiv_zmult2_eq [of 256 v 65536] by (simp add: b_eq c_def)
  have "v < 4294967296" using assms(2) by simp
  then have "c < 256" unfolding c_eq [symmetric] by simp
  moreover have "0 \<le> c" using assms(1) unfolding c_eq [symmetric] by simp
  ultimately have c_mod: "c mod 256 = c" by simp
  have v: "v = v mod 256 + 256 * a" by (simp add: a_def)
  have a: "a = a mod 256 + 256 * b" by (simp add: b_def)
  have b: "b = b mod 256 + 256 * c" by (simp add: c_def)
  have "v mod 256 + 256 * (a mod 256) + 65536 * (b mod 256) + 16777216 * c = v"
    using v a b by linarith
  then show ?thesis
    by (simp add: b_eq c_eq c_mod a_def [symmetric])
qed

lemma le16_split:
  fixes v :: int
  assumes "0 \<le> v" "v \<le> 65535"
  shows "v mod 256 + 256 * (v div 256 mod 256) = v"
proof -
  have "v < 65536" using assms(2) by simp
  then have "v div 256 < 256" by simp
  moreover have "0 \<le> v div 256" using assms(1) by simp
  ultimately have "v div 256 mod 256 = v div 256" by simp
  then show ?thesis by simp
qed

lemma length_le16_bytes [simp]: "length (le16_bytes v) = 2"
  by (simp add: le16_bytes_def)

lemma length_le32_bytes [simp]: "length (le32_bytes v) = 4"
  by (simp add: le32_bytes_def)

lemma u32_at_le32_bytes:
  assumes "0 \<le> v" "v \<le> 4294967295"
  shows "u32_at (le32_bytes v @ post) 0 = v"
  unfolding u32_at_def le32_bytes_def
  by (simp add: uint_byte_of_int) (simp only: le32_split [OF assms])

lemma u16_at_le16_bytes:
  assumes "0 \<le> v" "v \<le> 65535"
  shows "u16_at (le16_bytes v @ post) 0 = v"
  unfolding u16_at_def le16_bytes_def
  by (simp add: uint_byte_of_int) (simp only: le16_split [OF assms])

lemma u32_at_skip: "length pre \<le> n \<Longrightarrow> u32_at (pre @ xs) n = u32_at xs (n - length pre)"
  by (simp add: u32_at_def nth_append Suc_diff_le)

lemma u16_at_skip: "length pre \<le> n \<Longrightarrow> u16_at (pre @ xs) n = u16_at xs (n - length pre)"
  by (simp add: u16_at_def nth_append Suc_diff_le)

lemma u32_at_take: "n + 4 \<le> length pre \<Longrightarrow> u32_at (pre @ xs) n = u32_at pre n"
  by (simp add: u32_at_def nth_append)

lemma createHeader_layout:
  "n \<le> 65535 \<Longrightarrow> createHeader n = Inr ([0, 0] @ le16_bytes 1 @ le16_bytes (int n))"
  by (simp add: createHeader_def headerSize_def bufferAlloc_6 writeUInt16LE_def
                list_update_Cons_numeral le16_bytes_def)

lemma createDirectory_alt:
  "createDirectory x offset =
     bind_err (writeUInt8 (dim_byte (width x)) 0 (bufferAlloc 16)) (\<lambda>buf.
     bind_err (writeUInt8 (dim_byte (height x)) 1 buf) (\<lambda>buf.
     bind_err (writeUInt8 0 2 buf) (\<lambda>buf.
     bind_err (writeUInt8 0 3 buf) (\<lambda>buf.
     bind_err (writeUInt16LE 1 4 buf) (\<lambda>buf.
     bind_err (writeUInt16LE (int (bpp x) * 8) 6 buf) (\<lambda>buf.
     bind_err (writeUInt32LE (block_size x) 8 buf) (\<lambda>buf.
     bind_err (writeUInt32LE offset 12 buf) (\<lambda>buf.
     Inr (buf, block_size x)))))))))"
  unfolding createDirectory_def Let_def dim_byte_def block_size_def directorySize_def ..

lemma createDirectory_layout:
  assumes "dim_byte (width x) \<le> 255" "dim_byte (height x) \<le> 255" "bpp x \<le> 8191"
    "0 \<le> block_size x" "block_size x \<le> 4294967295" "0 \<le> off" "off \<le> 4294967295"
  shows "createDirectory x off = Inr (directory_bytes x off, block_size x)"
proof -
  have "0 \<le> dim_byte (width x)" "0 \<le> dim_byte (height x)"
    by (simp_all add: dim_byte_def)
  then show ?thesis
    using assms
    by (simp add: createDirectory_alt bufferAlloc_16 writeUInt8_def writeUInt16LE_def
                  writeUInt32LE_def write32_def list_update_Cons_numeral directory_bytes_def
                  le16_bytes_def le32_bytes_def)
qed

lemma writeUInt8_eq_Inr:
  "writeUInt8 v off buf = Inr b \<longleftrightarrow>
     0 \<le> v \<and> v \<le> 255 \<and> 0 \<le> off \<and> off + 1 \<le> int (length buf)
     \<and> b = buf[nat off := word_of_int v]"
  by (auto simp: writeUInt8_def)

lemma writeUInt16LE_eq_Inr:
  "writeUInt16LE v off buf = Inr b \<longleftrightarrow>
     0 \<le> v \<and> v \<le> 65535 \<and> 0 \<le> off \<and> off + 2 \<le> int (length buf)
     \<and> b = buf[nat off := word_of_int v, nat off + 1 := word_of_int (v div 256)]"
  by (auto simp: writeUInt16LE_def)

lemma writeUInt32LE_eq_Inr:
  "writeUInt32LE v off buf = Inr b \<longleftrightarrow>
     0 \<le> v \<and> v \<le> 4294967295 \<and> 0 \<le> off \<and> off + 4 \<le> int (length buf)
     \<and> b = write32 v off buf"
  by (auto simp: writeUInt32LE_def)

lemma writeInt32LE_eq_Inr:
  "writeInt32LE v off buf = Inr b \<longleftrightarrow>
     - 2147483648 \<le> v \<and> v \<le> 2147483647 \<and> 0 \<le> off \<and> off + 4 \<le> int (length buf)
     \<and> b = write32 v off buf"
  by (auto simp: writeInt32LE_def)

lemma createDirectory_Inr:
  assumes "createDirectory x off = Inr (buf, sz)"
  shows "buf = directory_bytes x off \<and> sz = block_size x \<and>
     dim_byte (width x) \<le> 255 \<and> dim_byte (height x) \<le> 255 \<and> bpp x \<le> 8191 \<and>
    0 \<le> block_size x \<and> block_size x \<le> 4294967295 \<and> 0 \<le> off \<and> off \<le> 4294967295"
proof -
  have ok: "dim_byte (width x) \<le> 255 \<and> dim_byte (height x) \<le> 255 \<and> bpp x \<le> 8191 \<and>
    0 \<le> block_size x \<and> block_size x \<le> 4294967295 \<and> 0 \<le> off \<and> off \<le> 4294967295"
    using assms unfolding createDirectory_alt
    by (simp add: bind_err_eq_Inr writeUInt8_eq_Inr writeUInt16LE_eq_Inr writeUInt32LE_eq_Inr)
  then show ?thesis using assms by (simp add: createDirectory_layout)
qed

lemma createBitmap_layout:
  assumes "width x \<le> 2147483647" "height x \<le> 1073741823" "bpp x \<le> 8191"
    "0 \<le> c" "c \<le> 4294967295" "length (data x) \<le> 4294967295"
  shows "createBitmap x c = Inr (bitmap_bytes x c)"
  using assms
  by (simp add: createBitmap_def bitmapSize_def bufferAlloc_40 writeUInt16LE_def
                writeUInt32LE_def writeInt32LE_def write32_def list_update_Cons_numeral
                bitmap_bytes_def le16_bytes_def le32_bytes_def)

lemma createBitmap_Inr:
  assumes "createBitmap x c = Inr buf"
  shows "buf = bitmap_bytes x c"
proof -
  have "width x \<le> 2147483647 \<and> height x \<le> 1073741823 \<and> bpp x \<le> 8191 \<and>
    0 \<le> c \<and> c \<le> 4294967295 \<and> length (data x) \<le> 4294967295"
    using assms unfolding createBitmap_def
    by (simp add: bind_err_eq_Inr writeUInt16LE_eq_Inr writeUInt32LE_eq_Inr writeInt32LE_eq_Inr)
  then show ?thesis using assms by (simp add: createBitmap_layout)
qed

section \<open>The transposer keeps the length\<close>

lemma readUInt8_eq_Inr:
  "readUInt8 buf off = Inr v \<longleftrightarrow>
     0 \<le> off \<and> off + 1 \<le> int (length buf) \<and> v = uint (buf ! nat off)"
  by (auto simp: readUInt8_def)

lemma writeUInt8_length: "writeUInt8 v off buf = Inr b \<Longrightarrow> length b = length buf"
  by (auto simp: writeUInt8_eq_Inr)

lemma uint_byte_le: "uint (x :: byte) \<le> 255"
  using uint_lt2p [of x] by simp

lemma createDib_cols_stop:
  "\<not> col < w * b \<Longrightarrow> createDib_cols dat w b e row col buf = Inr buf"
  by (simp add: createDib_cols.simps [of dat w b e row col buf])

lemma createDib_cols_step:
  assumes "col < w * b"
  shows "createDib_cols dat w b e row col buf = Inr buf' \<longleftrightarrow>
     int (row + col) + 4 \<le> int (length dat) \<and> 0 \<le> e - int row + int col
     \<and> e - int row + int col + 4 \<le> int (length buf)
     \<and> createDib_cols dat w b e row (col + b)
          (buf[nat (e - int row + int col) := dat ! (row + col + 2),
               nat (e - int row + int col) + 1 := dat ! (row + col + 1),
               nat (e - int row + int col) + 2 := dat ! (row + col),
               nat (e - int row + int col) + 3 := dat ! (row + col + 3)]) = Inr buf'"
  unfolding createDib_cols.simps [of dat w b e row col buf]
  using assms
  by (auto simp: bind_err_eq_Inr readUInt8_eq_Inr writeUInt8_eq_Inr uint_byte_le
                 nat_add_distrib)

lemma createDib_cols_length:
  "createDib_cols dat w b e row col buf = Inr buf' \<Longrightarrow> length buf' = length buf"
proof (induction dat w b e row col buf rule: createDib_cols.induct)
  case (1 dat w b e row col buf)
  show ?case
  proof (cases "col < w * b")
    case True
    from "1.prems" "1.IH" [OF True] show ?thesis
      by (auto simp: createDib_cols_step [OF True])
  next
    case False
    with "1.prems" show ?thesis
      by (simp add: createDib_cols_stop)
  qed
qed

lemma createDib_rows_length:
  "createDib_rows dat w h b row buf = Inr buf' \<Longrightarrow> length buf' = length buf"
proof (induction dat w h b row buf rule: createDib_rows.induct)
  case (1 dat w h b row buf)
  show ?case
  proof (cases "row < h * (w * b)")
    case True
    from "1.prems" True obtain b1 where
      b1: "createDib_cols dat w b (int (h * (w * b)) - int (w * b)) row 0 buf = Inr b1" and
      rec: "createDib_rows dat w h b (row + w * b) b1 = Inr buf'"
      unfolding createDib_rows.simps [of dat w h b row buf]
      by (auto simp: bind_err_eq_Inr)
    from "1.IH" [OF True rec] createDib_cols_length [OF b1] show ?thesis by simp
  next
    case False
    with "1.prems" show ?thesis
      unfolding createDib_rows.simps [of dat w h b row buf] by simp
  qed
qed

lemma createDib_length:
  "createDib dat w h b = Inr dib \<Longrightarrow> length dib = length dat"
  by (auto simp: createDib_def bufferAlloc_def dest: createDib_rows_length)

section \<open>Valid images and the directory entry\<close>

lemma getMaskScanWidth_small:
  assumes "w \<le> 2147483616"
  shows "getMaskScanWidth w = int ((w + 31) div 32 * 4)"
proof -
  have a: "toInt32 (int w + 31) = int w + 31"
    unfolding toInt32_def using assms by (intro signed_take_bit_int_eq_self) simp_all
  have b: "drop_bit 5 (int w + 31) = (int w + 31) div 32"
    by (simp add: drop_bit_eq_div)
  have c: "push_bit 2 ((int w + 31) div 32) = (int w + 31) div 32 * 4"
    by (simp add: push_bit_eq_mult)
  have d: "toInt32 ((int w + 31) div 32 * 4) = (int w + 31) div 32 * 4"
    unfolding toInt32_def using assms by (intro signed_take_bit_int_eq_self) simp_all
  have e: "(int w + 31) div 32 = int ((w + 31) div 32)"
    by (simp add: zdiv_int)
  show ?thesis
    unfolding getMaskScanWidth_def a b c d by (simp add: e)
qed

lemma valid_image_data_le:
  assumes "valid_image x"
  shows "length (data x) \<le> 262144"
proof -
  have "width x * height x \<le> 256 * 256"
    using assms by (intro mult_le_mono) (simp_all add: valid_image_def)
  then have "width x * height x * bpp x \<le> (256 * 256) * 4"
    using assms by (intro mult_le_mono) (auto simp: valid_image_def)
  then show ?thesis using assms by (simp add: valid_image_def)
qed

lemma valid_image_block_size:
  assumes "valid_image x"
  shows "0 \<le> block_size x" "block_size x \<le> 4294967295"
proof -
  have w: "width x \<le> 256" and h: "height x \<le> 256"
    using assms by (simp_all add: valid_image_def)
  define m where "m = int ((width x + 31) div 32 * 4) * int (height x)"
  have sw: "getMaskScanWidth (width x) = int ((width x + 31) div 32 * 4)"
    using w by (intro getMaskScanWidth_small) simp
  have "(width x + 31) div 32 * 4 \<le> 32" using w by simp
  then have "int ((width x + 31) div 32 * 4) \<le> 32" by linarith
  moreover have "int (height x) \<le> 256" using h by simp
  ultimately have "m \<le> 32 * 256"
    unfolding m_def by (intro mult_mono) simp_all
  moreover have "0 \<le> m" by (simp add: m_def)
  moreover have "block_size x = int (length (data x)) + 40 + (if bpp x = 4 then m else 0)"
    unfolding block_size_def sw m_def bitmapSize_def by simp
  moreover note valid_image_data_le [OF assms]
  ultimately show "0 \<le> block_size x" "block_size x \<le> 4294967295"
    by (simp_all split: if_splits)
qed

text \<open>
  C7. The directory entry of a valid image exists, and its first two bytes are the width and
  the height of the image, written as 0 when the dimension is 256 and as the dimension
  itself otherwise (that is, from 1 to 255).
\<close>

theorem createDirectory_dimension_bytes:
  assumes "valid_image x" "0 \<le> off" "off \<le> 4294967295"
  shows "\<exists>buf sz. createDirectory x off = Inr (buf, sz)
           \<and> u8_at buf 0 = (if width x = 256 then 0 else int (width x))
           \<and> u8_at buf 1 = (if height x = 256 then 0 else int (height x))"
proof -
  have dims: "dim_byte (width x) \<le> 255" "dim_byte (height x) \<le> 255" "bpp x \<le> 8191"
    using assms(1) by (auto simp: valid_image_def dim_byte_def)
  have nonneg: "0 \<le> dim_byte (width x)" "0 \<le> dim_byte (height x)"
    by (simp_all add: dim_byte_def)
  have "createDirectory x off = Inr (directory_bytes x off, block_size x)"
    using dims valid_image_block_size [OF assms(1)] assms(2,3)
    by (intro createDirectory_layout)
  moreover have "u8_at (directory_bytes x off) 0 = dim_byte (width x)"
    using dims nonneg by (simp add: u8_at_def directory_bytes_def uint_byte_of_int)
  moreover have "u8_at (directory_bytes x off) 1 = dim_byte (height x)"
    using dims nonneg by (simp add: u8_at_def directory_bytes_def uint_byte_of_int)
  ultimately show ?thesis by (simp add: dim_byte_def)
qed

theorem createDirectory_dimension_bytes_witness:
  "valid_image \<lparr>width = 256, height = 3, bpp = 4, data = replicate 3072 0\<rparr>
   \<and> (\<exists>buf sz. createDirectory \<lparr>width = 256, height = 3, bpp = 4, data = replicate 3072 0\<rparr> 22
                   = Inr (buf, sz)
        \<and> u8_at buf 0 = 0 \<and> u8_at buf 1 = 3)"
proof -
  have v: "valid_image \<lparr>width = 256, height = 3, bpp = 4, data = replicate 3072 0\<rparr>"
    by (simp add: valid_image_def)
  show ?thesis
    using v createDirectory_dimension_bytes [OF v, of 22] by simp
qed

section \<open>The bitmap header\<close>

lemma createBitmap_valid:
  assumes "valid_image x" "0 \<le> c" "c \<le> 4294967295"
  shows "createBitmap x c = Inr (bitmap_bytes x c)"
proof -
  have "width x \<le> 2147483647" "height x \<le> 1073741823" "bpp x \<le> 8191"
    using assms(1) by (auto simp: valid_image_def)
  moreover have "length (data x) \<le> 4294967295"
    using valid_image_data_le [OF assms(1)] by simp
  ultimately show ?thesis
    using assms(2,3) by (intro createBitmap_layout)
qed

lemma u32_at_le32_bytes_end:
  assumes "0 \<le> v" "v \<le> 4294967295"
  shows "u32_at (le32_bytes v) 0 = v"
  using u32_at_le32_bytes [OF assms, of "[]"] by simp

lemma bitmap_bytes_fields:
  assumes "width x \<le> 2147483647" "height x \<le> 1073741823" "bpp x \<le> 8191"
    "0 \<le> c" "c \<le> 4294967295" "length (data x) \<le> 4294967295"
  shows "length (bitmap_bytes x c) = 40"
    and "u32_at (bitmap_bytes x c) 0 = 40"
    and "u32_at (bitmap_bytes x c) 4 = int (width x)"
    and "u32_at (bitmap_bytes x c) 8 = int (height x) * 2"
    and "u16_at (bitmap_bytes x c) 12 = 1"
    and "u16_at (bitmap_bytes x c) 14 = int (bpp x) * 8"
    and "u32_at (bitmap_bytes x c) 16 = c"
    and "u32_at (bitmap_bytes x c) 20 = int (length (data x))"
    and "u32_at (bitmap_bytes x c) 24 = 0"
    and "u32_at (bitmap_bytes x c) 28 = 0"
    and "u32_at (bitmap_bytes x c) 32 = 0"
    and "u32_at (bitmap_bytes x c) 36 = 0"
  using assms
  by (simp_all add: bitmap_bytes_def u32_at_skip u16_at_skip u32_at_le32_bytes
        u32_at_le32_bytes_end u16_at_le16_bytes)

text \<open>
  C8. For a valid image, with three or with four bytes per pixel, and a compression constant
  that fits 32 bits, the bitmap header has 40 bytes and holds: 40, the width, twice the
  height, 1 plane, eight times the bytes per pixel, the compression constant, the length of
  the pixel buffer, which is the length of every transposed pixel array that \<open>createDib\<close>
  returns for the image, and four fields of 0.
\<close>

theorem createBitmap_fields:
  assumes "valid_image x" "0 \<le> c" "c \<le> 4294967295"
  shows "\<exists>buf. createBitmap x c = Inr buf \<and> length buf = 40
    \<and> u32_at buf 0 = 40
    \<and> u32_at buf 4 = int (width x)
    \<and> u32_at buf 8 = 2 * int (height x)
    \<and> u16_at buf 12 = 1
    \<and> u16_at buf 14 = int (bpp x) * 8
    \<and> u32_at buf 16 = c
    \<and> u32_at buf 20 = int (length (data x))
    \<and> (\<forall>dib. createDib (data x) (width x) (height x) (bpp x) = Inr dib
           \<longrightarrow> u32_at buf 20 = int (length dib))
    \<and> u32_at buf 24 = 0 \<and> u32_at buf 28 = 0 \<and> u32_at buf 32 = 0 \<and> u32_at buf 36 = 0"
proof -
  have b: "width x \<le> 2147483647" "height x \<le> 1073741823" "bpp x \<le> 8191"
    "length (data x) \<le> 4294967295"
    using assms(1) valid_image_data_le [OF assms(1)] by (auto simp: valid_image_def)
  note f = bitmap_bytes_fields [OF b(1,2,3) assms(2,3) b(4)]
  have "createBitmap x c = Inr (bitmap_bytes x c)"
    using assms by (rule createBitmap_valid)
  then show ?thesis
    using f by (auto dest: createDib_length)
qed

theorem createBitmap_fields_witness:
  "valid_image \<lparr>width = 2, height = 1, bpp = 4, data = [1, 2, 3, 4, 5, 6, 7, 8]\<rparr>
   \<and> createDib [1, 2, 3, 4, 5, 6, 7, 8] 2 1 4 = Inr [3, 2, 1, 4, 7, 6, 5, 8]
   \<and> (\<exists>buf. createBitmap \<lparr>width = 2, height = 1, bpp = 4, data = [1, 2, 3, 4, 5, 6, 7, 8]\<rparr> 0
               = Inr buf
        \<and> u32_at buf 8 = 2 \<and> u16_at buf 14 = 32 \<and> u32_at buf 20 = 8)"
proof -
  have v: "valid_image \<lparr>width = 2, height = 1, bpp = 4, data = [1, 2, 3, 4, 5, 6, 7, 8]\<rparr>"
    by (simp add: valid_image_def)
  have d: "createDib [1, 2, 3, 4, 5, 6, 7, 8] 2 1 4 = Inr [3, 2, 1, 4, 7, 6, 5, 8]"
    by code_simp
  show ?thesis
    using v d createBitmap_fields [OF v, of 0] by auto
qed

section \<open>The transposer at four bytes per pixel\<close>

lemma swap_rb_0: "j mod 4 = 0 \<Longrightarrow> swap_rb j = j + 2"
  by (simp add: swap_rb_def)

lemma swap_rb_2: "j mod 4 = 2 \<Longrightarrow> swap_rb j = j - 2"
  by (simp add: swap_rb_def)

lemma swap_rb_1: "j mod 4 = 1 \<Longrightarrow> swap_rb j = j"
  by (simp add: swap_rb_def)

lemma swap_rb_3: "j mod 4 = 3 \<Longrightarrow> swap_rb j = j"
  by (simp add: swap_rb_def)

lemma mod4_disj:
  fixes j :: nat
  shows "j mod 4 = 0 \<or> j mod 4 = 1 \<or> j mod 4 = 2 \<or> j mod 4 = 3"
proof -
  have "j mod 4 < 4" by simp
  then show ?thesis by linarith
qed

lemma swap_rb_group:
  assumes "4 dvd c"
  shows "swap_rb c = c + 2" "swap_rb (c + 1) = c + 1" "swap_rb (c + 2) = c"
    "swap_rb (c + 3) = c + 3"
proof -
  have "c mod 4 = 0" "(c + 1) mod 4 = 1" "(c + 2) mod 4 = 2" "(c + 3) mod 4 = 3"
    using assms by presburger+
  then show "swap_rb c = c + 2" "swap_rb (c + 1) = c + 1" "swap_rb (c + 2) = c"
    "swap_rb (c + 3) = c + 3"
    by (simp_all add: swap_rb_def)
qed

lemma swap_rb_swap_rb: "swap_rb (swap_rb j) = j"
  using mod4_disj [of j]
proof (elim disjE)
  assume a: "j mod 4 = 0"
  then have "(j + 2) mod 4 = 2" by presburger
  with a show ?thesis by (simp add: swap_rb_0 swap_rb_2)
next
  assume "j mod 4 = 1"
  then show ?thesis by (simp add: swap_rb_1)
next
  assume a: "j mod 4 = 2"
  then have "(j - 2) mod 4 = 0" "2 \<le> j" by presburger+
  with a show ?thesis by (simp add: swap_rb_0 swap_rb_2)
next
  assume "j mod 4 = 3"
  then show ?thesis by (simp add: swap_rb_3)
qed

lemma swap_rb_less:
  assumes "4 dvd c" "j < c"
  shows "swap_rb j < c"
  using mod4_disj [of j]
proof (elim disjE)
  assume a: "j mod 4 = 0"
  then have "j + 2 < c" using assms by presburger
  with a show ?thesis by (simp add: swap_rb_0)
next
  assume "j mod 4 = 1"
  then show ?thesis using assms by (simp add: swap_rb_1)
next
  assume "j mod 4 = 2"
  then show ?thesis using assms by (simp add: swap_rb_2)
next
  assume "j mod 4 = 3"
  then show ?thesis using assms by (simp add: swap_rb_3)
qed

lemma div_mod_window:
  fixes i :: nat
  assumes "q * c \<le> i" "i < q * c + c"
  shows "i div c = q" "i mod c = i - q * c"
proof -
  obtain j where j: "i = q * c + j" "j < c"
    using assms by (metis add_less_cancel_left le_Suc_ex)
  then show "i div c = q" "i mod c = i - q * c" by simp_all
qed

lemma createDib_cols_unfold:
  assumes "col < w * b"
  shows "createDib_cols dat w b e row col buf =
     (if int (row + col) + 4 \<le> int (length dat) \<and> 0 \<le> e - int row + int col
         \<and> e - int row + int col + 4 \<le> int (length buf)
      then createDib_cols dat w b e row (col + b)
          (buf[nat (e - int row + int col) := dat ! (row + col + 2),
               nat (e - int row + int col) + 1 := dat ! (row + col + 1),
               nat (e - int row + int col) + 2 := dat ! (row + col),
               nat (e - int row + int col) + 3 := dat ! (row + col + 3)])
      else Inl ERR_OUT_OF_RANGE)"
  unfolding createDib_cols.simps [of dat w b e row col buf]
  using assms
  by (auto simp: readUInt8_def writeUInt8_def uint_byte_le nat_add_distrib)

lemma createDib_cols_4:
  assumes "b = 4" "row + w * 4 \<le> length dat" "0 \<le> e - int row"
    "nat (e - int row) + w * 4 \<le> length buf" "col \<le> w * 4" "4 dvd col"
  shows "\<exists>buf'. createDib_cols dat w b e row col buf = Inr buf' \<and> length buf' = length buf
    \<and> (\<forall>i<length buf. buf' ! i =
          (if nat (e - int row) + col \<le> i \<and> i < nat (e - int row) + w * 4
           then dat ! (row + swap_rb (i - nat (e - int row))) else buf ! i))"
  using assms
proof (induction dat w b e row col buf rule: createDib_cols.induct)
  case (1 dat w b e row col buf)
  define B where "B = nat (e - int row)"
  have eB: "e - int row = int B" using "1.prems"(3) by (simp add: B_def)
  have b4: "b = 4" by fact
  show ?case
  proof (cases "col < w * b")
    case False
    then have stop: "createDib_cols dat w b e row col buf = Inr buf"
      by (rule createDib_cols_stop)
    have "w * 4 \<le> col" using False b4 by simp
    then show ?thesis
      unfolding stop by auto
  next
    case True
    define buf1 where "buf1 = buf[B + col := dat ! (row + col + 2),
               B + col + 1 := dat ! (row + col + 1),
               B + col + 2 := dat ! (row + col),
               B + col + 3 := dat ! (row + col + 3)]"
    have "col < w * 4" using True b4 by simp
    then have col4: "col + 4 \<le> w * 4"
      using "1.prems"(6) by presburger
    have len1: "length buf1 = length buf" by (simp add: buf1_def)
    have pos: "nat (e - int row + int col) = B + col"
      using eB by simp
    have inrange: "int (row + col) + 4 \<le> int (length dat) \<and> 0 \<le> e - int row + int col
         \<and> e - int row + int col + 4 \<le> int (length buf)"
    proof (intro conjI)
      show "int (row + col) + 4 \<le> int (length dat)"
        using col4 "1.prems"(2) by linarith
      show "0 \<le> e - int row + int col"
        using eB by linarith
      have "B + w * 4 \<le> length buf"
        using "1.prems"(4) by (simp add: B_def)
      then show "e - int row + int col + 4 \<le> int (length buf)"
        using eB col4 by linarith
    qed
    have step: "createDib_cols dat w b e row col buf
                = createDib_cols dat w b e row (col + b) buf1"
      unfolding createDib_cols_unfold [OF True] pos buf1_def using inrange by simp
    have "\<exists>buf'. createDib_cols dat w b e row (col + b) buf1 = Inr buf' \<and> length buf' = length buf1
      \<and> (\<forall>i<length buf1. buf' ! i =
          (if nat (e - int row) + (col + b) \<le> i \<and> i < nat (e - int row) + w * 4
           then dat ! (row + swap_rb (i - nat (e - int row))) else buf1 ! i))"
    proof (rule "1.IH" [OF True])
      show "b = 4" by fact
      show "row + w * 4 \<le> length dat" by fact
      show "0 \<le> e - int row" by fact
      show "nat (e - int row) + w * 4 \<le> length buf1" using "1.prems"(4) len1 by simp
      show "col + b \<le> w * 4" using col4 b4 by simp
      show "4 dvd col + b" using "1.prems"(6) b4 by simp
    qed
    then obtain buf' where r: "createDib_cols dat w b e row (col + b) buf1 = Inr buf'"
      and l: "length buf' = length buf1"
      and n: "\<And>i. i < length buf \<Longrightarrow> buf' ! i =
          (if B + (col + 4) \<le> i \<and> i < B + w * 4
           then dat ! (row + swap_rb (i - B)) else buf1 ! i)"
      unfolding B_def [symmetric] b4 len1 by blast
    have "buf' ! i = (if B + col \<le> i \<and> i < B + w * 4
           then dat ! (row + swap_rb (i - B)) else buf ! i)" if i: "i < length buf" for i
    proof -
      consider "i < B + col" | "i = B + col" | "i = B + col + 1" | "i = B + col + 2"
        | "i = B + col + 3" | "B + (col + 4) \<le> i"
        by linarith
      then show ?thesis
      proof cases
        case 1
        then show ?thesis using n [OF i] by (simp add: buf1_def)
      next
        case 2
        then show ?thesis
          using n [OF i] i col4 swap_rb_group(1) [OF "1.prems"(6)] by (simp add: buf1_def)
      next
        case 3
        then show ?thesis
          using n [OF i] i col4 swap_rb_group(2) [OF "1.prems"(6)] by (simp add: buf1_def)
      next
        case 4
        then show ?thesis
          using n [OF i] i col4 swap_rb_group(3) [OF "1.prems"(6)] by (simp add: buf1_def)
      next
        case 5
        then show ?thesis
          using n [OF i] i col4 swap_rb_group(4) [OF "1.prems"(6)]
          by (simp add: buf1_def add.assoc)
      next
        case 6
        then show ?thesis using n [OF i] by (simp add: buf1_def)
      qed
    qed
    then show ?thesis
      unfolding step r B_def [symmetric] using l len1 by simp
  qed
qed

lemma createDib_rows_stop:
  "\<not> row < h * (w * b) \<Longrightarrow> createDib_rows dat w h b row buf = Inr buf"
  by (simp add: createDib_rows.simps [of dat w h b row buf])

lemma createDib_rows_unfold:
  "row < h * (w * b) \<Longrightarrow> createDib_rows dat w h b row buf =
     bind_err (createDib_cols dat w b (int (h * (w * b)) - int (w * b)) row 0 buf)
       (\<lambda>buf. createDib_rows dat w h b (row + w * b) buf)"
  by (simp add: createDib_rows.simps [of dat w h b row buf])

lemma createDib_rows_4:
  assumes "length dat = h * (w * 4)" "length buf = h * (w * 4)" "r \<le> h" "0 < w"
  shows "\<exists>buf'. createDib_rows dat w h 4 (r * (w * 4)) buf = Inr buf'
    \<and> length buf' = length buf
    \<and> (\<forall>i<length buf. buf' ! i =
          (if i < (h - r) * (w * 4) then dat ! dib_source w h i else buf ! i))"
  using assms
proof (induction "h - r" arbitrary: r buf)
  case 0
  then have "r = h" by simp
  then show ?case by (simp add: createDib_rows_stop)
next
  case (Suc n)
  define c where "c = w * 4"
  have c: "0 < c" "4 dvd c" using Suc.prems(4) by (simp_all add: c_def)
  have r: "r < h" using Suc.hyps(2) by simp
  define q where "q = h - 1 - r"
  have h: "h = q + r + 1" using r by (simp add: q_def)
  have hc: "h * c = q * c + r * c + c" by (simp add: h algebra_simps)
  have row: "r * c < h * c" using hc c(1) by simp
  have e: "int (h * c) - int c - int (r * c) = int (q * c)"
    by (simp add: hc)
  have ne: "nat (int (h * c) - int c - int (r * c)) = q * c"
    unfolding e by (rule nat_int)
  obtain buf1 where
    b1: "createDib_cols dat w 4 (int (h * c) - int c) (r * c) 0 buf = Inr buf1" and
    l1: "length buf1 = length buf" and
    n1: "\<And>i. i < length buf \<Longrightarrow> buf1 ! i =
          (if q * c \<le> i \<and> i < q * c + c then dat ! (r * c + swap_rb (i - q * c)) else buf ! i)"
  proof -
    have "\<exists>buf'. createDib_cols dat w 4 (int (h * c) - int c) (r * c) 0 buf = Inr buf'
      \<and> length buf' = length buf
      \<and> (\<forall>i<length buf. buf' ! i =
          (if nat (int (h * c) - int c - int (r * c)) + 0 \<le> i
               \<and> i < nat (int (h * c) - int c - int (r * c)) + w * 4
           then dat ! (r * c + swap_rb (i - nat (int (h * c) - int c - int (r * c))))
           else buf ! i))"
    proof (rule createDib_cols_4)
      show "r * c + w * 4 \<le> length dat"
        using Suc.prems(1) hc by (simp add: c_def [symmetric])
      show "0 \<le> int (h * c) - int c - int (r * c)" unfolding e by simp
      show "nat (int (h * c) - int c - int (r * c)) + w * 4 \<le> length buf"
        unfolding ne using Suc.prems(2) hc by (simp add: c_def [symmetric])
    qed simp_all
    then show ?thesis
      unfolding ne using that by (auto simp: c_def [symmetric])
  qed
  have "\<exists>buf'. createDib_rows dat w h 4 (Suc r * (w * 4)) buf1 = Inr buf'
    \<and> length buf' = length buf1
    \<and> (\<forall>i<length buf1. buf' ! i =
          (if i < (h - Suc r) * (w * 4) then dat ! dib_source w h i else buf1 ! i))"
  proof (rule Suc.hyps(1))
    show "n = h - Suc r" using Suc.hyps(2) by simp
    show "length buf1 = h * (w * 4)" using l1 Suc.prems(2) by simp
    show "Suc r \<le> h" using r by simp
  qed fact+
  then obtain buf' where
    b2: "createDib_rows dat w h 4 (r * c + c) buf1 = Inr buf'" and
    l2: "length buf' = length buf" and
    n2: "\<And>i. i < length buf \<Longrightarrow> buf' ! i =
          (if i < q * c then dat ! dib_source w h i else buf1 ! i)"
    unfolding l1 c_def [symmetric] q_def by (auto simp: add.commute)
  have res: "createDib_rows dat w h 4 (r * c) buf = Inr buf'"
    using row b1 b2
    by (simp add: createDib_rows_unfold c_def [symmetric])
  have "buf' ! i = (if i < (h - r) * c then dat ! dib_source w h i else buf ! i)"
    if i: "i < length buf" for i
  proof -
    have hr: "(h - r) * c = q * c + c" by (simp add: h)
    consider "i < q * c" | "q * c \<le> i" "i < q * c + c" | "q * c + c \<le> i" by linarith
    then show ?thesis
    proof cases
      case 1
      then show ?thesis using n2 [OF i] hr by simp
    next
      case 2
      have "dib_source w h i = r * c + swap_rb (i - q * c)"
        unfolding dib_source_def c_def [symmetric] div_mod_window [OF 2]
        by (simp add: h)
      then show ?thesis using n2 [OF i] n1 [OF i] 2 hr by simp
    next
      case 3
      then show ?thesis using n2 [OF i] n1 [OF i] hr by simp
    qed
  qed
  then show ?case
    unfolding c_def [symmetric] using res l2 by simp
qed

lemma dib_source_window:
  assumes "i < h * (w * 4)"
  shows "dib_source w h i < h * (w * 4)" "dib_source w h (dib_source w h i) = i"
proof -
  define c where "c = w * 4"
  define q where "q = i div c"
  define m where "m = i mod c"
  define q' where "q' = h - 1 - q"
  have i: "i < h * c" using assms by (simp add: c_def)
  then have c: "0 < c" by (cases c) simp_all
  have c4: "4 dvd c" by (simp add: c_def)
  have q: "q < h" unfolding q_def using i by (simp add: less_mult_imp_div_less)
  have m: "m < c" unfolding m_def using c by simp
  have s: "swap_rb m < c" using c4 m by (rule swap_rb_less)
  have src: "dib_source w h i = q' * c + swap_rb m"
    by (simp add: dib_source_def c_def q_def m_def q'_def)
  have h: "h = q' + q + 1" using q by (simp add: q'_def)
  have "q' * c + c \<le> h * c" by (simp add: h algebra_simps)
  then show "dib_source w h i < h * (w * 4)"
    unfolding src c_def [symmetric] using s by linarith
  have w: "q' * c \<le> q' * c + swap_rb m" "q' * c + swap_rb m < q' * c + c"
    using s by simp_all
  have "dib_source w h (q' * c + swap_rb m) = (h - 1 - q') * c + swap_rb (swap_rb m)"
    unfolding dib_source_def c_def [symmetric] div_mod_window [OF w] by simp
  also have "\<dots> = q * c + m" by (simp add: h swap_rb_swap_rb)
  also have "\<dots> = i" by (simp add: q_def m_def)
  finally show "dib_source w h (dib_source w h i) = i" by (simp add: src)
qed

lemma createDib_4:
  assumes "length dat = w * h * 4"
  shows "\<exists>dib. createDib dat w h 4 = Inr dib \<and> length dib = length dat
    \<and> (\<forall>i<length dat. dib ! i = dat ! dib_source w h i)"
proof (cases "w = 0")
  case True
  then show ?thesis using assms by (simp add: createDib_def createDib_rows_stop bufferAlloc_def)
next
  case False
  have len: "length dat = h * (w * 4)" using assms by (simp add: mult_ac)
  have "\<exists>buf'. createDib_rows dat w h 4 (0 * (w * 4)) (bufferAlloc (length dat)) = Inr buf'
    \<and> length buf' = length (bufferAlloc (length dat))
    \<and> (\<forall>i<length (bufferAlloc (length dat)). buf' ! i =
          (if i < (h - 0) * (w * 4) then dat ! dib_source w h i
           else bufferAlloc (length dat) ! i))"
    using len False by (intro createDib_rows_4) (simp_all add: bufferAlloc_def)
  then show ?thesis
    using len by (auto simp: createDib_def bufferAlloc_def)
qed

lemma createDib_twice:
  assumes "length dat = w * h * 4"
  shows "bind_err (createDib dat w h 4) (\<lambda>dib. createDib dib w h 4) = Inr dat"
proof -
  have len: "length dat = h * (w * 4)" using assms by (simp add: mult_ac)
  obtain dib where d1: "createDib dat w h 4 = Inr dib" and l1: "length dib = length dat"
    and n1: "\<And>i. i < length dat \<Longrightarrow> dib ! i = dat ! dib_source w h i"
    using createDib_4 [OF assms] by blast
  have "length dib = w * h * 4" using l1 assms by simp
  from createDib_4 [OF this]
  obtain dib2 where d2: "createDib dib w h 4 = Inr dib2" and l2: "length dib2 = length dib"
    and n2: "\<And>i. i < length dib \<Longrightarrow> dib2 ! i = dib ! dib_source w h i"
    by blast
  have "dib2 = dat"
  proof (rule nth_equalityI)
    show "length dib2 = length dat" using l1 l2 by simp
    fix i assume "i < length dib2"
    then have i: "i < h * (w * 4)" using l1 l2 len by simp
    have "dib2 ! i = dib ! dib_source w h i" using n2 i l1 len by simp
    also have "\<dots> = dat ! dib_source w h (dib_source w h i)"
      using n1 dib_source_window(1) [OF i] len by simp
    finally show "dib2 ! i = dat ! i" by (simp add: dib_source_window(2) [OF i])
  qed
  then show ?thesis using d1 d2 by simp
qed

text \<open>
  C6. On a buffer of four bytes per pixel whose length is width times height times 4,
  transposing twice gives back the buffer.
\<close>

theorem createDib_involution:
  assumes "length dat = w * h * 4"
  shows "\<exists>dib. createDib dat w h 4 = Inr dib \<and> createDib dib w h 4 = Inr dat"
proof -
  obtain dib where d: "createDib dat w h 4 = Inr dib"
    using createDib_4 [OF assms] by blast
  then show ?thesis using createDib_twice [OF assms] by simp
qed

theorem createDib_involution_witness:
  "length [1, 2, 3, 4, 5, 6, 7, 8, 9, 10, 11, 12, 13, 14, 15, 16 :: byte] = 2 * 2 * 4
   \<and> createDib [1, 2, 3, 4, 5, 6, 7, 8, 9, 10, 11, 12, 13, 14, 15, 16] 2 2 4
       = Inr [11, 10, 9, 12, 15, 14, 13, 16, 3, 2, 1, 4, 7, 6, 5, 8]
   \<and> createDib [11, 10, 9, 12, 15, 14, 13, 16, 3, 2, 1, 4, 7, 6, 5, 8] 2 2 4
       = Inr [1, 2, 3, 4, 5, 6, 7, 8, 9, 10, 11, 12, 13, 14, 15, 16]"
proof -
  have l: "length [1, 2, 3, 4, 5, 6, 7, 8, 9, 10, 11, 12, 13, 14, 15, 16 :: byte] = 2 * 2 * 4"
    by simp
  have d: "createDib [1, 2, 3, 4, 5, 6, 7, 8, 9, 10, 11, 12, 13, 14, 15, 16] 2 2 4
       = Inr [11, 10, 9, 12, 15, 14, 13, 16, 3, 2, 1, 4, 7, 6, 5, 8]"
    by code_simp
  show ?thesis
    using l d createDib_involution [OF l] by auto
qed

section \<open>What the transposer needs of its buffer\<close>

lemma dvd_step_le:
  fixes col :: nat
  assumes "col < w * b" "b dvd col"
  shows "col + b \<le> w * b"
proof -
  obtain k where k: "col = b * k" using assms(2) by (auto elim: dvdE)
  have "0 < b" using assms(1) by (cases b) simp_all
  then have "k < w" using assms(1) k by (simp add: mult.commute)
  then have "Suc k \<le> w" by simp
  then have "b * Suc k \<le> b * w" by (rule mult_le_mono2)
  then show ?thesis using k by (simp add: mult.commute)
qed

lemma createDib_cols_last:
  assumes "createDib_cols dat w b e row col buf = Inr buf'" "col < w * b" "b dvd col"
  shows "e - int row + int (w * b) - int b + 4 \<le> int (length buf)"
  using assms
proof (induction dat w b e row col buf rule: createDib_cols.induct)
  case (1 dat w b e row col buf)
  have lt: "col < w * b" by fact
  define buf1 where "buf1 = buf[nat (e - int row + int col) := dat ! (row + col + 2),
               nat (e - int row + int col) + 1 := dat ! (row + col + 1),
               nat (e - int row + int col) + 2 := dat ! (row + col),
               nat (e - int row + int col) + 3 := dat ! (row + col + 3)]"
  have len1: "length buf1 = length buf" by (simp add: buf1_def)
  from "1.prems"(1) have
    w: "e - int row + int col + 4 \<le> int (length buf)" and
    rec: "createDib_cols dat w b e row (col + b) buf1 = Inr buf'"
    unfolding createDib_cols_unfold [OF lt] buf1_def by (simp_all split: if_splits)
  show ?case
  proof (cases "col + b < w * b")
    case True
    have "b dvd col + b" using "1.prems"(3) by simp
    from "1.IH" [OF lt rec True this] len1 show ?thesis by simp
  next
    case False
    then have "col + b = w * b" using dvd_step_le [OF lt "1.prems"(3)] by simp
    then have "int col = int (w * b) - int b" by linarith
    then show ?thesis using w by simp
  qed
qed

lemma createDib_needs:
  assumes "createDib dat w h b = Inr dib" "0 < w" "0 < h" "0 < b"
  shows "w * h * b + 4 \<le> length dat + b"
proof -
  have rows: "0 < h * (w * b)" using assms(2,3,4) by simp
  have cols: "0 < w * b" using assms(2,4) by simp
  from assms(1) obtain buf1 where
    "createDib_cols dat w b (int (h * (w * b)) - int (w * b)) 0 0 (bufferAlloc (length dat))
       = Inr buf1"
    unfolding createDib_def createDib_rows_unfold [OF rows]
    by (auto simp: bind_err_eq_Inr)
  from createDib_cols_last [OF this cols]
  have "int (h * (w * b)) - int (w * b) + int (w * b) - int b + 4 \<le> int (length dat)"
    by (simp add: bufferAlloc_def)
  then have "int (h * (w * b)) + 4 \<le> int (length dat) + int b" by linarith
  then have "h * (w * b) + 4 \<le> length dat + b" by linarith
  then show ?thesis by (simp add: mult_ac)
qed

lemma createDib_cols_error:
  "createDib_cols dat w b e row col buf = Inl err \<Longrightarrow> err = ERR_OUT_OF_RANGE"
proof (induction dat w b e row col buf rule: createDib_cols.induct)
  case (1 dat w b e row col buf)
  show ?case
  proof (cases "col < w * b")
    case True
    from "1.prems" "1.IH" [OF True] show ?thesis
      unfolding createDib_cols_unfold [OF True] by (auto split: if_splits)
  next
    case False
    with "1.prems" show ?thesis by (simp add: createDib_cols_stop)
  qed
qed

lemma createDib_rows_error:
  "createDib_rows dat w h b row buf = Inl err \<Longrightarrow> err = ERR_OUT_OF_RANGE"
proof (induction dat w h b row buf rule: createDib_rows.induct)
  case (1 dat w h b row buf)
  show ?case
  proof (cases "row < h * (w * b)")
    case True
    show ?thesis
    proof (cases "createDib_cols dat w b (int (h * (w * b)) - int (w * b)) row 0 buf")
      case (Inl e')
      with "1.prems" True show ?thesis
        by (auto simp: createDib_rows_unfold dest: createDib_cols_error)
    next
      case (Inr b1)
      with "1.prems" True "1.IH" [OF True] show ?thesis
        by (auto simp: createDib_rows_unfold)
    qed
  next
    case False
    with "1.prems" show ?thesis by (simp add: createDib_rows_stop)
  qed
qed

lemma createDib_error: "createDib dat w h b = Inl err \<Longrightarrow> err = ERR_OUT_OF_RANGE"
  unfolding createDib_def by (rule createDib_rows_error)

lemma createDib_exact_three:
  assumes "0 < w" "0 < h" "length dat = w * h * 3"
  shows "createDib dat w h 3 = Inl ERR_OUT_OF_RANGE"
proof (cases "createDib dat w h 3")
  case (Inl err)
  then show ?thesis using createDib_error [OF Inl] by simp
next
  case (Inr dib)
  from createDib_needs [OF Inr assms(1,2)] assms(3) show ?thesis by simp
qed

text \<open>
  C4, as stated, fails at three bytes per pixel. The transposer reads and writes four bytes
  at every pixel whatever the number of bytes per pixel is. For a 1 by 1 image of three bytes
  per pixel and a buffer of exactly 3 bytes, the fourth read is at offset 3, behind the end
  of the source: the transposer does not complete. (By \<open>createDib_exact_three\<close> the same
  holds for every buffer of exactly width times height times 3 bytes with both dimensions
  positive, so that nothing the claim says at three bytes per pixel is true of an image.)
\<close>

theorem createDib_three_bytes_counterexample:
  "length [1, 2, 3 :: byte] = 1 * 1 * 3 \<and> createDib [1, 2, 3] 1 1 3 = Inl ERR_OUT_OF_RANGE"
  by code_simp

text \<open>
  C4, as the code has it: the claim at four bytes per pixel. On every buffer of exactly
  width times height times 4 bytes the transposer completes, no access being out of range,
  and returns a buffer of the same length in which the pixel of row \<open>r\<close> and column \<open>c\<close>
  of the source is found in row \<open>height - 1 - r\<close> and column \<open>c\<close>, its first and third byte
  exchanged, its second and fourth byte unchanged.
\<close>

theorem createDib_four_bytes:
  assumes "length dat = w * h * 4"
  shows "\<exists>dib. createDib dat w h 4 = Inr dib \<and> length dib = length dat
    \<and> (\<forall>r<h. \<forall>c<w.
          dib ! ((h - 1 - r) * (w * 4) + c * 4) = dat ! (r * (w * 4) + c * 4 + 2)
        \<and> dib ! ((h - 1 - r) * (w * 4) + c * 4 + 1) = dat ! (r * (w * 4) + c * 4 + 1)
        \<and> dib ! ((h - 1 - r) * (w * 4) + c * 4 + 2) = dat ! (r * (w * 4) + c * 4)
        \<and> dib ! ((h - 1 - r) * (w * 4) + c * 4 + 3) = dat ! (r * (w * 4) + c * 4 + 3))"
proof -
  obtain dib where d: "createDib dat w h 4 = Inr dib" and l: "length dib = length dat"
    and n: "\<And>i. i < length dat \<Longrightarrow> dib ! i = dat ! dib_source w h i"
    using createDib_4 [OF assms] by blast
  have px: "dib ! ((h - 1 - r) * (w * 4) + (c * 4 + k)) = dat ! (r * (w * 4) + swap_rb (c * 4 + k))"
    if r: "r < h" and c: "c < w" and k: "k < 4" for r c k
  proof -
    define q where "q = h - 1 - r"
    define cc where "cc = w * 4"
    define j where "j = c * 4 + k"
    have h: "h = q + r + 1" using r by (simp add: q_def)
    have j: "j < cc" using c k unfolding j_def cc_def by linarith
    have win: "q * cc \<le> q * cc + j" "q * cc + j < q * cc + cc" using j by simp_all
    have "q * cc + cc \<le> h * cc" by (simp add: h algebra_simps)
    then have "q * cc + j < length dat"
      using j assms by (simp add: cc_def mult_ac)
    then have "dib ! (q * cc + j) = dat ! dib_source w h (q * cc + j)" by (rule n)
    also have "dib_source w h (q * cc + j) = (h - 1 - q) * cc + swap_rb j"
      unfolding dib_source_def cc_def [symmetric] div_mod_window [OF win] by simp
    also have "h - 1 - q = r" by (simp add: h)
    finally show ?thesis by (simp add: q_def cc_def j_def)
  qed
  have "dib ! ((h - 1 - r) * (w * 4) + c * 4) = dat ! (r * (w * 4) + c * 4 + 2)
        \<and> dib ! ((h - 1 - r) * (w * 4) + c * 4 + 1) = dat ! (r * (w * 4) + c * 4 + 1)
        \<and> dib ! ((h - 1 - r) * (w * 4) + c * 4 + 2) = dat ! (r * (w * 4) + c * 4)
        \<and> dib ! ((h - 1 - r) * (w * 4) + c * 4 + 3) = dat ! (r * (w * 4) + c * 4 + 3)"
    if r: "r < h" and c: "c < w" for r c
  proof -
    have g: "4 dvd c * 4" by simp
    show ?thesis
      using px [OF r c, of 0] px [OF r c, of 1] px [OF r c, of 2] px [OF r c, of 3]
        swap_rb_group [OF g]
      by (simp add: add.assoc)
  qed
  then show ?thesis using d l by blast
qed

theorem createDib_four_bytes_witness:
  "length [1, 2, 3, 4, 5, 6, 7, 8, 9, 10, 11, 12, 13, 14, 15, 16 :: byte] = 2 * 2 * 4
   \<and> createDib [1, 2, 3, 4, 5, 6, 7, 8, 9, 10, 11, 12, 13, 14, 15, 16] 2 2 4
       = Inr [11, 10, 9, 12, 15, 14, 13, 16, 3, 2, 1, 4, 7, 6, 5, 8]
   \<and> (\<exists>dib. createDib [1, 2, 3, 4, 5, 6, 7, 8, 9, 10, 11, 12, 13, 14, 15, 16] 2 2 4 = Inr dib
         \<and> length dib = 16
         \<and> dib ! ((2 - 1 - 0) * (2 * 4) + 1 * 4) = 7
         \<and> dib ! ((2 - 1 - 0) * (2 * 4) + 1 * 4 + 1) = 6
         \<and> dib ! ((2 - 1 - 0) * (2 * 4) + 1 * 4 + 2) = 5
         \<and> dib ! ((2 - 1 - 0) * (2 * 4) + 1 * 4 + 3) = 8)"
proof -
  let ?d = "[1, 2, 3, 4, 5, 6, 7, 8, 9, 10, 11, 12, 13, 14, 15, 16 :: byte]"
  have l: "length ?d = 2 * 2 * 4" by simp
  have run: "createDib ?d 2 2 4 = Inr [11, 10, 9, 12, 15, 14, 13, 16, 3, 2, 1, 4, 7, 6, 5, 8]"
    by code_simp
  from createDib_four_bytes [OF l] obtain dib where
    d: "createDib ?d 2 2 4 = Inr dib" and ld: "length dib = length ?d" and
    px: "\<forall>r<2. \<forall>c<2.
          dib ! ((2 - 1 - r) * (2 * 4) + c * 4) = ?d ! (r * (2 * 4) + c * 4 + 2)
        \<and> dib ! ((2 - 1 - r) * (2 * 4) + c * 4 + 1) = ?d ! (r * (2 * 4) + c * 4 + 1)
        \<and> dib ! ((2 - 1 - r) * (2 * 4) + c * 4 + 2) = ?d ! (r * (2 * 4) + c * 4)
        \<and> dib ! ((2 - 1 - r) * (2 * 4) + c * 4 + 3) = ?d ! (r * (2 * 4) + c * 4 + 3)"
    by blast
  have r: "(0::nat) < 2" and c: "(1::nat) < 2" by simp_all
  from px [rule_format, OF r c]
  have "dib ! ((2 - 1 - 0) * (2 * 4) + 1 * 4) = 7
      \<and> dib ! ((2 - 1 - 0) * (2 * 4) + 1 * 4 + 1) = 6
      \<and> dib ! ((2 - 1 - 0) * (2 * 4) + 1 * 4 + 2) = 5
      \<and> dib ! ((2 - 1 - 0) * (2 * 4) + 1 * 4 + 3) = 8"
    by simp
  with d ld l run show ?thesis by simp
qed

section \<open>The mask\<close>

lemma bit_flag:
  "bit (if c then 0 else (2 :: int) ^ m) k \<longleftrightarrow> \<not> c \<and> k = m"
  by (simp add: bit_exp_iff)

lemma flag_bounds:
  assumes "m < 8"
  shows "0 \<le> (if c then 0 else (2 :: int) ^ m)" "(if c then 0 else (2 :: int) ^ m) < 2 ^ 8"
proof -
  have "(2 :: int) ^ m < 2 ^ 8"
    using assms by (intro power_strict_increasing) simp_all
  then show "(if c then 0 else (2 :: int) ^ m) < 2 ^ 8" by simp
  show "0 \<le> (if c then 0 else (2 :: int) ^ m)" by simp
qed

lemma group_mask_pow:
  "group_mask t a0 a1 a2 a3 a4 a5 a6 a7 =
     (if a0 \<ge> t then 0 else 2 ^ 7) OR (if a1 \<ge> t then 0 else 2 ^ 6)
     OR (if a2 \<ge> t then 0 else 2 ^ 5) OR (if a3 \<ge> t then 0 else 2 ^ 4)
     OR (if a4 \<ge> t then 0 else 2 ^ 3) OR (if a5 \<ge> t then 0 else 2 ^ 2)
     OR (if a6 \<ge> t then 0 else 2 ^ 1) OR (if a7 \<ge> t then 0 else 2 ^ 0)"
  by (simp add: group_mask_def)

lemma group_mask_bit:
  "bit (group_mask t a0 a1 a2 a3 a4 a5 a6 a7) k \<longleftrightarrow>
     (a0 < t \<and> k = 7) \<or> (a1 < t \<and> k = 6) \<or> (a2 < t \<and> k = 5) \<or> (a3 < t \<and> k = 4)
     \<or> (a4 < t \<and> k = 3) \<or> (a5 < t \<and> k = 2) \<or> (a6 < t \<and> k = 1) \<or> (a7 < t \<and> k = 0)"
  by (simp only: group_mask_pow bit_or_iff bit_flag disj_assoc not_le)

lemma or_bounds:
  fixes a b :: int
  assumes "0 \<le> a" "a < 2 ^ 8" "0 \<le> b" "b < 2 ^ 8"
  shows "0 \<le> a OR b" "a OR b < 2 ^ 8"
proof -
  show "0 \<le> a OR b" using assms(1,3) by simp
  show "a OR b < 2 ^ 8" using assms(1,2,4) by (rule OR_upper)
qed

lemma group_mask_bounds:
  "0 \<le> group_mask t a0 a1 a2 a3 a4 a5 a6 a7" "group_mask t a0 a1 a2 a3 a4 a5 a6 a7 \<le> 255"
proof -
  have "0 \<le> group_mask t a0 a1 a2 a3 a4 a5 a6 a7 \<and> group_mask t a0 a1 a2 a3 a4 a5 a6 a7 < 2 ^ 8"
    unfolding group_mask_pow
    by (intro conjI or_bounds flag_bounds) simp_all
  then show "0 \<le> group_mask t a0 a1 a2 a3 a4 a5 a6 a7"
    "group_mask t a0 a1 a2 a3 a4 a5 a6 a7 \<le> 255" by simp_all
qed

lemma bit_byte_of_int:
  "bit (word_of_int m :: byte) k \<longleftrightarrow> k < 8 \<and> bit m k"
  by (simp add: bit_word_of_int_iff)

lemma createMask_full_alt:
  "createMask_full dat w t x srcPos dstPos buf =
     (if int x < int w - 7 then
        bind_err (readUInt8 dat (int srcPos)) (\<lambda>a0.
        bind_err (readUInt8 dat (int srcPos + 4)) (\<lambda>a1.
        bind_err (readUInt8 dat (int srcPos + 8)) (\<lambda>a2.
        bind_err (readUInt8 dat (int srcPos + 12)) (\<lambda>a3.
        bind_err (readUInt8 dat (int srcPos + 16)) (\<lambda>a4.
        bind_err (readUInt8 dat (int srcPos + 20)) (\<lambda>a5.
        bind_err (readUInt8 dat (int srcPos + 24)) (\<lambda>a6.
        bind_err (readUInt8 dat (int srcPos + 28)) (\<lambda>a7.
        bind_err (writeUInt8 (group_mask t a0 a1 a2 a3 a4 a5 a6 a7) dstPos buf) (\<lambda>buf.
        createMask_full dat w t (x + 8) (srcPos + 32) (dstPos + 1) buf)))))))))
      else Inr (srcPos, dstPos, buf))"
  unfolding group_mask_def by (rule createMask_full.simps)

lemma readUInt8_ok:
  "p < length buf \<Longrightarrow> readUInt8 buf (int p) = Inr (uint (buf ! p))"
  by (simp add: readUInt8_def)

lemma readUInt8_ok_add:
  "p + k < length buf \<Longrightarrow> readUInt8 buf (int p + int k) = Inr (uint (buf ! (p + k)))"
  using readUInt8_ok [of "p + k" buf] by simp

lemma createMask_full_stop:
  "\<not> x + 8 \<le> w \<Longrightarrow> createMask_full dat w t x srcPos dstPos buf = Inr (srcPos, dstPos, buf)"
  by (subst createMask_full_alt) simp

lemma createMask_full_unfold:
  assumes "x + 8 \<le> w" "srcPos + 29 \<le> length dat" "dstPos < length buf"
  shows "createMask_full dat w t x srcPos (int dstPos) buf =
     createMask_full dat w t (x + 8) (srcPos + 32) (int (dstPos + 1))
       (buf[dstPos := word_of_int (group_mask t (uint (dat ! srcPos)) (uint (dat ! (srcPos + 4)))
            (uint (dat ! (srcPos + 8))) (uint (dat ! (srcPos + 12)))
            (uint (dat ! (srcPos + 16))) (uint (dat ! (srcPos + 20)))
            (uint (dat ! (srcPos + 24))) (uint (dat ! (srcPos + 28))))])"
proof -
  have c: "int x < int w - 7" using assms(1) by linarith
  have r: "readUInt8 dat (int srcPos) = Inr (uint (dat ! srcPos))"
    "readUInt8 dat (int srcPos + 4) = Inr (uint (dat ! (srcPos + 4)))"
    "readUInt8 dat (int srcPos + 8) = Inr (uint (dat ! (srcPos + 8)))"
    "readUInt8 dat (int srcPos + 12) = Inr (uint (dat ! (srcPos + 12)))"
    "readUInt8 dat (int srcPos + 16) = Inr (uint (dat ! (srcPos + 16)))"
    "readUInt8 dat (int srcPos + 20) = Inr (uint (dat ! (srcPos + 20)))"
    "readUInt8 dat (int srcPos + 24) = Inr (uint (dat ! (srcPos + 24)))"
    "readUInt8 dat (int srcPos + 28) = Inr (uint (dat ! (srcPos + 28)))"
    using assms(2) readUInt8_ok [of srcPos dat]
      readUInt8_ok_add [of srcPos 4 dat] readUInt8_ok_add [of srcPos 8 dat]
      readUInt8_ok_add [of srcPos 12 dat] readUInt8_ok_add [of srcPos 16 dat]
      readUInt8_ok_add [of srcPos 20 dat] readUInt8_ok_add [of srcPos 24 dat]
      readUInt8_ok_add [of srcPos 28 dat]
    by simp_all
  have wr: "writeUInt8 (group_mask t a0 a1 a2 a3 a4 a5 a6 a7) (int dstPos) buf
            = Inr (buf[dstPos := word_of_int (group_mask t a0 a1 a2 a3 a4 a5 a6 a7)])"
    for a0 a1 a2 a3 a4 a5 a6 a7
    using assms(3) group_mask_bounds [of t a0 a1 a2 a3 a4 a5 a6 a7]
    by (simp add: writeUInt8_def)
  show ?thesis
    by (subst createMask_full_alt) (simp add: c r wr add.commute)
qed

lemma createMask_rest_stop:
  "\<not> x < w mod 8 \<Longrightarrow> createMask_rest dat w t x srcPos msk = Inr (srcPos, msk)"
  by (simp add: createMask_rest.simps [of dat w t x srcPos msk])

lemma createMask_rest_unfold:
  assumes "x < w mod 8" "srcPos < length dat"
  shows "createMask_rest dat w t x srcPos msk =
     createMask_rest dat w t (x + 1) (srcPos + 4)
       (msk OR (if uint (dat ! srcPos) \<ge> t then 0 else 2 ^ (7 - x)))"
  using assms
  by (simp add: createMask_rest.simps [of dat w t x srcPos msk] readUInt8_ok
      del: if_split cong: if_cong)

lemma group_byte_bits:
  assumes "k < 8"
  shows "bit (word_of_int (group_mask t (uint (dat ! (4 * p + 3))) (uint (dat ! (4 * p + 3 + 4)))
            (uint (dat ! (4 * p + 3 + 8))) (uint (dat ! (4 * p + 3 + 12)))
            (uint (dat ! (4 * p + 3 + 16))) (uint (dat ! (4 * p + 3 + 20)))
            (uint (dat ! (4 * p + 3 + 24))) (uint (dat ! (4 * p + 3 + 28)))) :: byte) k
         \<longleftrightarrow> alpha_below dat t (p + (7 - k))"
proof -
  have "k = 0 \<or> k = 1 \<or> k = 2 \<or> k = 3 \<or> k = 4 \<or> k = 5 \<or> k = 6 \<or> k = 7"
    using assms by linarith
  then show ?thesis
    by (elim disjE) (simp_all add: bit_byte_of_int group_mask_bit alpha_below_def)
qed

lemma pixels_in_range:
  fixes p n x k L :: nat
  assumes "4 * (p + (n - x)) \<le> L" "x + k \<le> n"
  shows "4 * (p + k) \<le> L"
proof -
  obtain r where r: "n = x + r" using assms(2) by (metis le_Suc_ex add_leD1)
  then have "k \<le> r" using assms(2) by simp
  then have "4 * (p + k) \<le> 4 * (p + r)" by simp
  then show ?thesis using assms(1) by (simp add: r)
qed

lemma createMask_full_loop:
  assumes "x \<le> w" "4 * (p + (w - x)) \<le> length dat" "d + (w - x) div 8 \<le> length buf"
  shows "\<exists>buf'. createMask_full dat w t x (4 * p + 3) (int d) buf
           = Inr (4 * (p + 8 * ((w - x) div 8)) + 3, int (d + (w - x) div 8), buf')
    \<and> length buf' = length buf
    \<and> (\<forall>j<length buf.
          if d \<le> j \<and> j < d + (w - x) div 8
          then (\<forall>k<8. bit (buf' ! j) k \<longleftrightarrow> alpha_below dat t (p + 8 * (j - d) + (7 - k)))
          else buf' ! j = buf ! j)"
  using assms
proof (induction "(w - x) div 8" arbitrary: x p d buf)
  case 0
  then have z: "(w - x) div 8 = 0" by simp
  then have "\<not> x + 8 \<le> w" by (simp add: div_eq_0_iff)
  then have "createMask_full dat w t x (4 * p + 3) (int d) buf = Inr (4 * p + 3, int d, buf)"
    by (rule createMask_full_stop)
  then show ?case unfolding z by auto
next
  case (Suc n)
  have n: "(w - x) div 8 = Suc n" using Suc.hyps(2) by simp
  have x8: "x + 8 \<le> w"
  proof (rule ccontr)
    assume "\<not> x + 8 \<le> w"
    then have "w - x < 8" by linarith
    then show False using n by simp
  qed
  have n': "(w - (x + 8)) div 8 = n"
  proof -
    obtain m where m: "w = x + 8 + m" using x8 le_Suc_ex by blast
    have "(w - x) div 8 = (m + 8) div 8" by (simp add: m)
    also have "\<dots> = m div 8 + 1" by simp
    finally show ?thesis using n by (simp add: m)
  qed
  define b where "b = (word_of_int (group_mask t (uint (dat ! (4 * p + 3)))
            (uint (dat ! (4 * p + 3 + 4)))
            (uint (dat ! (4 * p + 3 + 8))) (uint (dat ! (4 * p + 3 + 12)))
            (uint (dat ! (4 * p + 3 + 16))) (uint (dat ! (4 * p + 3 + 20)))
            (uint (dat ! (4 * p + 3 + 24))) (uint (dat ! (4 * p + 3 + 28)))) :: byte)"
  define buf1 where "buf1 = buf[d := b]"
  have len1: "length buf1 = length buf" by (simp add: buf1_def)
  have dlt: "d < length buf" using Suc.prems(3) n by simp
  have src: "4 * p + 3 + 29 \<le> length dat"
    using pixels_in_range [OF Suc.prems(2) x8] by simp
  have step: "createMask_full dat w t x (4 * p + 3) (int d) buf
              = createMask_full dat w t (x + 8) (4 * (p + 8) + 3) (int (d + 1)) buf1"
    using createMask_full_unfold [OF x8 src dlt, of t]
    by (simp add: buf1_def b_def)
  have "\<exists>buf'. createMask_full dat w t (x + 8) (4 * (p + 8) + 3) (int (d + 1)) buf1
           = Inr (4 * (p + 8 + 8 * ((w - (x + 8)) div 8)) + 3,
                  int (d + 1 + (w - (x + 8)) div 8), buf')
    \<and> length buf' = length buf1
    \<and> (\<forall>j<length buf1.
          if d + 1 \<le> j \<and> j < d + 1 + (w - (x + 8)) div 8
          then (\<forall>k<8. bit (buf' ! j) k
                  \<longleftrightarrow> alpha_below dat t (p + 8 + 8 * (j - (d + 1)) + (7 - k)))
          else buf' ! j = buf1 ! j)"
  proof (rule Suc.hyps(1))
    show "n = (w - (x + 8)) div 8" using n' by simp
    show "x + 8 \<le> w" by fact
    show "4 * (p + 8 + (w - (x + 8))) \<le> length dat" using Suc.prems(2) x8 by simp
    show "d + 1 + (w - (x + 8)) div 8 \<le> length buf1" using Suc.prems(3) n n' len1 by simp
  qed
  then obtain buf' where
    r: "createMask_full dat w t (x + 8) (4 * (p + 8) + 3) (int (d + 1)) buf1
           = Inr (4 * (p + 8 + 8 * n) + 3, int (d + 1 + n), buf')" and
    l: "length buf' = length buf" and
    nn: "\<And>j. j < length buf \<Longrightarrow>
          (if d + 1 \<le> j \<and> j < d + 1 + n
          then (\<forall>k<8. bit (buf' ! j) k
                  \<longleftrightarrow> alpha_below dat t (p + 8 + 8 * (j - (d + 1)) + (7 - k)))
          else buf' ! j = buf1 ! j)"
    unfolding n' len1 by blast
  have "if d \<le> j \<and> j < d + Suc n
          then (\<forall>k<8. bit (buf' ! j) k \<longleftrightarrow> alpha_below dat t (p + 8 * (j - d) + (7 - k)))
          else buf' ! j = buf ! j" if j: "j < length buf" for j
  proof -
    consider "j < d" | "j = d" | "d + 1 \<le> j" "j < d + 1 + n" | "d + 1 + n \<le> j" by linarith
    then show ?thesis
    proof cases
      case 1
      then show ?thesis using nn [OF j] by (simp add: buf1_def)
    next
      case 2
      then have "buf' ! j = b" using nn [OF j] dlt by (simp add: buf1_def)
      then show ?thesis using 2 group_byte_bits [of _ t dat p] by (simp add: b_def)
    next
      case 3
      have e: "p + 8 + 8 * (j - (d + 1)) = p + 8 * (j - d)" using 3 by linarith
      from nn [OF j] 3
      have "\<forall>k<8. bit (buf' ! j) k
                  \<longleftrightarrow> alpha_below dat t (p + 8 + 8 * (j - (d + 1)) + (7 - k))"
        by (simp del: One_nat_def add_Suc_right)
      then have "\<forall>k<8. bit (buf' ! j) k \<longleftrightarrow> alpha_below dat t (p + 8 * (j - d) + (7 - k))"
        unfolding e .
      moreover have "d \<le> j \<and> j < d + Suc n" using 3 by simp
      ultimately show ?thesis by (simp only: if_True simp_thms)
    next
      case 4
      then show ?thesis using nn [OF j] by (simp add: buf1_def)
    qed
  qed
  then show ?case
    unfolding step r n using l by (simp add: algebra_simps)
qed

lemma createMask_rest_loop:
  assumes "x \<le> w mod 8" "4 * (p + (w mod 8 - x)) \<le> length dat" "0 \<le> msk" "msk < 2 ^ 8"
  shows "\<exists>msk'. createMask_rest dat w t x (4 * p + 3) msk
           = Inr (4 * (p + (w mod 8 - x)) + 3, msk')
    \<and> 0 \<le> msk' \<and> msk' < 2 ^ 8
    \<and> (\<forall>k. bit msk' k \<longleftrightarrow>
          bit msk k \<or> (x \<le> 7 - k \<and> k \<le> 7 \<and> 7 - k < w mod 8
                        \<and> alpha_below dat t (p + (7 - k - x))))"
  using assms
proof (induction "w mod 8 - x" arbitrary: x p msk)
  case 0
  then have "\<not> x < w mod 8" "w mod 8 - x = 0" by simp_all
  then show ?case using 0 by (auto simp: createMask_rest_stop)
next
  case (Suc n)
  have x: "x < w mod 8" using Suc.hyps(2) by simp
  have x7: "x \<le> 7"
  proof -
    have "w mod 8 < 8" by simp
    then show ?thesis using x by linarith
  qed
  define flag where "flag = (if uint (dat ! (4 * p + 3)) \<ge> t then 0 else (2 :: int) ^ (7 - x))"
  define msk1 where "msk1 = msk OR flag"
  have fb: "0 \<le> flag" "flag < 2 ^ 8"
    unfolding flag_def by (rule flag_bounds; simp)+
  have m1: "0 \<le> msk1" "msk1 < 2 ^ 8"
    unfolding msk1_def using Suc.prems(3,4) fb by (rule or_bounds)+
  have "x + 1 \<le> w mod 8" using x by simp
  from pixels_in_range [OF Suc.prems(2) this]
  have src: "4 * p + 3 < length dat" by simp
  have step: "createMask_rest dat w t x (4 * p + 3) msk
              = createMask_rest dat w t (x + 1) (4 * (p + 1) + 3) msk1"
    using createMask_rest_unfold [OF x src, of t msk]
    by (simp add: msk1_def flag_def)
  have "\<exists>msk'. createMask_rest dat w t (x + 1) (4 * (p + 1) + 3) msk1
           = Inr (4 * (p + 1 + (w mod 8 - (x + 1))) + 3, msk')
    \<and> 0 \<le> msk' \<and> msk' < 2 ^ 8
    \<and> (\<forall>k. bit msk' k \<longleftrightarrow>
          bit msk1 k \<or> (x + 1 \<le> 7 - k \<and> k \<le> 7 \<and> 7 - k < w mod 8
                        \<and> alpha_below dat t (p + 1 + (7 - k - (x + 1)))))"
  proof (rule Suc.hyps(1))
    show "n = w mod 8 - (x + 1)" using Suc.hyps(2) by simp
    show "x + 1 \<le> w mod 8" using x by simp
    show "4 * (p + 1 + (w mod 8 - (x + 1))) \<le> length dat" using Suc.prems(2) x by simp
  qed (fact m1)+
  then obtain msk' where
    r: "createMask_rest dat w t (x + 1) (4 * (p + 1) + 3) msk1
           = Inr (4 * (p + 1 + (w mod 8 - (x + 1))) + 3, msk')" and
    b: "0 \<le> msk'" "msk' < 2 ^ 8" and
    bits: "\<And>k. bit msk' k \<longleftrightarrow>
          bit msk1 k \<or> (x + 1 \<le> 7 - k \<and> k \<le> 7 \<and> 7 - k < w mod 8
                        \<and> alpha_below dat t (p + 1 + (7 - k - (x + 1))))"
    by blast
  have pos: "p + 1 + (w mod 8 - (x + 1)) = p + (w mod 8 - x)" using x by linarith
  have "bit msk' k \<longleftrightarrow>
          bit msk k \<or> (x \<le> 7 - k \<and> k \<le> 7 \<and> 7 - k < w mod 8
                        \<and> alpha_below dat t (p + (7 - k - x)))" for k
  proof -
    have f: "bit flag k \<longleftrightarrow> uint (dat ! (4 * p + 3)) < t \<and> k = 7 - x"
      unfolding flag_def bit_flag by (simp add: not_le)
    consider "k = 7 - x" | "x + 1 \<le> 7 - k" | "k \<noteq> 7 - x" "\<not> x + 1 \<le> 7 - k" by blast
    then show ?thesis
    proof cases
      case 1
      then have "7 - k = x" "k \<le> 7" "\<not> x + 1 \<le> 7 - k" using x7 by simp_all
      then show ?thesis
        using bits [of k] f x 1 by (simp add: msk1_def bit_or_iff alpha_below_def)
    next
      case 2
      then have "p + 1 + (7 - k - (x + 1)) = p + (7 - k - x)" "k \<noteq> 7 - x" "x \<le> 7 - k"
        by linarith+
      then show ?thesis
        using bits [of k] f 2 by (simp add: msk1_def bit_or_iff)
    next
      case 3
      then have "\<not> (x \<le> 7 - k \<and> k \<le> 7)" by linarith
      then show ?thesis
        using bits [of k] f 3 by (auto simp: msk1_def bit_or_iff)
    qed
  qed
  then show ?case
    unfolding step r pos using b by simp
qed

lemma writeUInt8_ok:
  "0 \<le> v \<Longrightarrow> v \<le> 255 \<Longrightarrow> p < length buf \<Longrightarrow>
   writeUInt8 v (int p) buf = Inr (buf[p := word_of_int v])"
  by (simp add: writeUInt8_def)

lemma createMask_rows_stop:
  "\<not> y < h \<Longrightarrow> createMask_rows dat w h t scanWidth y srcPos buf = Inr buf"
  by (simp add: createMask_rows.simps [of dat w h t scanWidth y srcPos buf])

lemma createMask_rows_unfold:
  "y < h \<Longrightarrow> createMask_rows dat w h t scanWidth y srcPos buf =
     bind_err (createMask_row dat w t scanWidth y srcPos buf)
       (\<lambda>(srcPos, buf). createMask_rows dat w h t scanWidth (y + 1) srcPos buf)"
  unfolding createMask_row_def
  by (subst createMask_rows.simps)
     (simp add: bind_err_def split: sum.splits prod.splits)

lemma createMask_row_result:
  assumes "4 * (y * w + w) \<le> length dat" "y * sw + sw \<le> length buf" "w \<le> 8 * sw"
  shows "\<exists>buf'. createMask_row dat w t (int sw) y (4 * (y * w) + 3) buf
           = Inr (4 * (y * w + w) + 3, buf')
    \<and> length buf' = length buf
    \<and> (\<forall>j<length buf.
          if y * sw \<le> j \<and> j < y * sw + sw \<and> 8 * (j - y * sw) < w
          then (\<forall>k<8. bit (buf' ! j) k \<longleftrightarrow>
                  8 * (j - y * sw) + (7 - k) < w
                  \<and> alpha_below dat t (y * w + 8 * (j - y * sw) + (7 - k)))
          else buf' ! j = buf ! j)"
proof -
  define g where "g = w div 8"
  define m where "m = w mod 8"
  define d where "d = y * sw"
  define p where "p = y * w"
  have w: "w = 8 * g + m" and m8: "m < 8" by (simp_all add: g_def m_def)
  have gsw: "g \<le> sw" using assms(3) w by linarith
  have di: "int y * int sw = int d" by (simp add: d_def)
  have "\<exists>buf'. createMask_full dat w t 0 (4 * p + 3) (int d) buf
           = Inr (4 * (p + 8 * ((w - 0) div 8)) + 3, int (d + (w - 0) div 8), buf')
    \<and> length buf' = length buf
    \<and> (\<forall>j<length buf.
          if d \<le> j \<and> j < d + (w - 0) div 8
          then (\<forall>k<8. bit (buf' ! j) k \<longleftrightarrow> alpha_below dat t (p + 8 * (j - d) + (7 - k)))
          else buf' ! j = buf ! j)"
  proof (rule createMask_full_loop)
    show "4 * (p + (w - 0)) \<le> length dat" using assms(1) by (simp add: p_def)
    show "d + (w - 0) div 8 \<le> length buf" using assms(2) gsw by (simp add: d_def g_def)
  qed simp
  then obtain buf1 where
    f: "createMask_full dat w t 0 (4 * p + 3) (int d) buf
           = Inr (4 * (p + 8 * g) + 3, int (d + g), buf1)" and
    l1: "length buf1 = length buf" and
    n1: "\<And>j. j < length buf \<Longrightarrow>
          (if d \<le> j \<and> j < d + g
          then (\<forall>k<8. bit (buf1 ! j) k \<longleftrightarrow> alpha_below dat t (p + 8 * (j - d) + (7 - k)))
          else buf1 ! j = buf ! j)"
    unfolding g_def by auto
  have full_bits: "8 * (j - d) + (7 - k) < w" if "d \<le> j" "j < d + g" "k < 8" for j k
    using that w by linarith
  show ?thesis
  proof (cases "m = 0")
    case True
    then have w8: "w = 8 * g" using w by simp
    have row: "createMask_row dat w t (int sw) y (4 * (y * w) + 3) buf
               = Inr (4 * (y * w + w) + 3, buf1)"
      unfolding createMask_row_def di using f True
      by (simp add: p_def [symmetric] m_def [symmetric] w8 [symmetric])
    have "if d \<le> j \<and> j < d + sw \<and> 8 * (j - d) < w
          then (\<forall>k<8. bit (buf1 ! j) k \<longleftrightarrow>
                  8 * (j - d) + (7 - k) < w \<and> alpha_below dat t (p + 8 * (j - d) + (7 - k)))
          else buf1 ! j = buf ! j" if j: "j < length buf" for j
    proof (cases "d \<le> j \<and> j < d + g")
      case True
      then have c: "d \<le> j \<and> j < d + sw \<and> 8 * (j - d) < w" using w8 gsw by linarith
      from n1 [OF j] True
      have "\<forall>k<8. bit (buf1 ! j) k \<longleftrightarrow> alpha_below dat t (p + 8 * (j - d) + (7 - k))"
        by (simp only: if_True simp_thms)
      then have "\<forall>k<8. bit (buf1 ! j) k \<longleftrightarrow>
                  8 * (j - d) + (7 - k) < w \<and> alpha_below dat t (p + 8 * (j - d) + (7 - k))"
        using full_bits True by blast
      then show ?thesis by (simp only: c if_True simp_thms)
    next
      case False
      then have c: "\<not> (d \<le> j \<and> j < d + sw \<and> 8 * (j - d) < w)" using w8 by linarith
      from n1 [OF j] False have "buf1 ! j = buf ! j" by (simp only: if_False simp_thms)
      then show ?thesis by (simp only: c if_False simp_thms)
    qed
    then have all: "\<forall>j<length buf. if d \<le> j \<and> j < d + sw \<and> 8 * (j - d) < w
          then (\<forall>k<8. bit (buf1 ! j) k \<longleftrightarrow>
                  8 * (j - d) + (7 - k) < w \<and> alpha_below dat t (p + 8 * (j - d) + (7 - k)))
          else buf1 ! j = buf ! j" by blast
    show ?thesis
    proof (intro exI conjI)
      show "createMask_row dat w t (int sw) y (4 * (y * w) + 3) buf
               = Inr (4 * (y * w + w) + 3, buf1)" by (rule row)
      show "length buf1 = length buf" by (rule l1)
      show "\<forall>j<length buf. if y * sw \<le> j \<and> j < y * sw + sw \<and> 8 * (j - y * sw) < w
          then (\<forall>k<8. bit (buf1 ! j) k \<longleftrightarrow>
                  8 * (j - y * sw) + (7 - k) < w
                  \<and> alpha_below dat t (y * w + 8 * (j - y * sw) + (7 - k)))
          else buf1 ! j = buf ! j"
        using all unfolding d_def p_def .
    qed
  next
    case False
    then have m0: "0 < m" by simp
    have g_lt: "g < sw" using assms(3) w m0 by linarith
    have "\<exists>msk'. createMask_rest dat w t 0 (4 * (p + 8 * g) + 3) 0
           = Inr (4 * (p + 8 * g + (w mod 8 - 0)) + 3, msk')
      \<and> 0 \<le> msk' \<and> msk' < 2 ^ 8
      \<and> (\<forall>k. bit msk' k \<longleftrightarrow>
          bit (0 :: int) k \<or> (0 \<le> 7 - k \<and> k \<le> 7 \<and> 7 - k < w mod 8
                        \<and> alpha_below dat t (p + 8 * g + (7 - k - 0))))"
    proof (rule createMask_rest_loop)
      show "4 * (p + 8 * g + (w mod 8 - 0)) \<le> length dat"
        using assms(1) w by (simp add: p_def m_def [symmetric])
    qed simp_all
    moreover have pw: "p + 8 * g + (w mod 8 - 0) = p + w" using w by (simp add: m_def)
    ultimately obtain msk' where
      r: "createMask_rest dat w t 0 (4 * (p + 8 * g) + 3) 0 = Inr (4 * (p + w) + 3, msk')" and
      mb: "0 \<le> msk'" "msk' \<le> 255" and
      bits: "\<And>k. bit msk' k \<longleftrightarrow> k \<le> 7 \<and> 7 - k < m \<and> alpha_below dat t (p + 8 * g + (7 - k))"
      unfolding pw by (auto simp: m_def)
    define buf2 where "buf2 = buf1[d + g := word_of_int msk']"
    have dg: "d + g < length buf" using assms(2) g_lt by (simp add: d_def)
    have wr: "writeUInt8 msk' (int (d + g)) buf1 = Inr buf2"
      unfolding buf2_def using mb dg l1 by (intro writeUInt8_ok) simp_all
    have row: "createMask_row dat w t (int sw) y (4 * (y * w) + 3) buf
               = Inr (4 * (y * w + w) + 3, buf2)"
      unfolding createMask_row_def di using f False r wr
      by (simp add: p_def [symmetric] m_def [symmetric])
    have "if d \<le> j \<and> j < d + sw \<and> 8 * (j - d) < w
          then (\<forall>k<8. bit (buf2 ! j) k \<longleftrightarrow>
                  8 * (j - d) + (7 - k) < w \<and> alpha_below dat t (p + 8 * (j - d) + (7 - k)))
          else buf2 ! j = buf ! j" if j: "j < length buf" for j
    proof -
      consider "d \<le> j \<and> j < d + g" | "j = d + g" | "\<not> (d \<le> j \<and> j < d + g)" "j \<noteq> d + g"
        by blast
      then show ?thesis
      proof cases
        case 1
        then have c: "d \<le> j \<and> j < d + sw \<and> 8 * (j - d) < w" using w gsw by linarith
        have e: "buf2 ! j = buf1 ! j" using 1 by (simp add: buf2_def)
        from n1 [OF j] 1
        have "\<forall>k<8. bit (buf1 ! j) k \<longleftrightarrow> alpha_below dat t (p + 8 * (j - d) + (7 - k))"
          by (simp only: if_True simp_thms)
        then have "\<forall>k<8. bit (buf2 ! j) k \<longleftrightarrow>
                  8 * (j - d) + (7 - k) < w \<and> alpha_below dat t (p + 8 * (j - d) + (7 - k))"
          unfolding e using full_bits 1 by blast
        then show ?thesis by (simp only: c if_True simp_thms)
      next
        case 2
        have b2: "buf2 ! j = word_of_int msk'" using 2 dg l1 by (simp add: buf2_def)
        have c: "d \<le> j \<and> j < d + sw \<and> 8 * (j - d) < w" using 2 g_lt w m0 by simp
        have "bit (buf2 ! j) k \<longleftrightarrow>
                  8 * (j - d) + (7 - k) < w \<and> alpha_below dat t (p + 8 * (j - d) + (7 - k))"
          if k: "k < 8" for k
        proof -
          have jd: "j - d = g" using 2 by simp
          have e1: "8 * (j - d) + (7 - k) < w \<longleftrightarrow> 7 - k < m"
            unfolding jd using w by linarith
          have k7: "k \<le> 7" using k by simp
          show ?thesis
            unfolding b2 bit_byte_of_int bits e1 unfolding jd using k k7 by blast
        qed
        then have "\<forall>k<8. bit (buf2 ! j) k \<longleftrightarrow>
                  8 * (j - d) + (7 - k) < w \<and> alpha_below dat t (p + 8 * (j - d) + (7 - k))"
          by blast
        then show ?thesis by (simp only: c if_True simp_thms)
      next
        case 3
        then have c: "\<not> (d \<le> j \<and> j < d + sw \<and> 8 * (j - d) < w)" using w m8 by linarith
        have e: "buf2 ! j = buf1 ! j" using 3 by (simp add: buf2_def)
        from n1 [OF j] 3(1) have "buf1 ! j = buf ! j" by (simp only: if_False simp_thms)
        then show ?thesis by (simp only: c e if_False simp_thms)
      qed
    qed
    then have all: "\<forall>j<length buf. if d \<le> j \<and> j < d + sw \<and> 8 * (j - d) < w
          then (\<forall>k<8. bit (buf2 ! j) k \<longleftrightarrow>
                  8 * (j - d) + (7 - k) < w \<and> alpha_below dat t (p + 8 * (j - d) + (7 - k)))
          else buf2 ! j = buf ! j" by blast
    show ?thesis
    proof (intro exI conjI)
      show "createMask_row dat w t (int sw) y (4 * (y * w) + 3) buf
               = Inr (4 * (y * w + w) + 3, buf2)" by (rule row)
      show "length buf2 = length buf" by (simp add: buf2_def l1)
      show "\<forall>j<length buf. if y * sw \<le> j \<and> j < y * sw + sw \<and> 8 * (j - y * sw) < w
          then (\<forall>k<8. bit (buf2 ! j) k \<longleftrightarrow>
                  8 * (j - y * sw) + (7 - k) < w
                  \<and> alpha_below dat t (y * w + 8 * (j - y * sw) + (7 - k)))
          else buf2 ! j = buf ! j"
        using all unfolding d_def p_def .
    qed
  qed
qed

lemma createMask_rows_loop:
  assumes "length dat = 4 * (h * w)" "length buf = h * sw" "w \<le> 8 * sw" "y \<le> h"
  shows "\<exists>buf'. createMask_rows dat w h t (int sw) y (4 * (y * w) + 3) buf = Inr buf'
    \<and> length buf' = length buf
    \<and> (\<forall>j<length buf.
          if y * sw \<le> j \<and> 8 * (j mod sw) < w
          then (\<forall>k<8. bit (buf' ! j) k \<longleftrightarrow>
                  8 * (j mod sw) + (7 - k) < w
                  \<and> alpha_below dat t ((j div sw) * w + 8 * (j mod sw) + (7 - k)))
          else buf' ! j = buf ! j)"
  using assms
proof (induction "h - y" arbitrary: y buf)
  case 0
  then have yh: "y = h" by simp
  have stop: "createMask_rows dat w h t (int sw) y (4 * (y * w) + 3) buf = Inr buf"
    using yh by (simp add: createMask_rows_stop)
  have "\<not> (y * sw \<le> j \<and> 8 * (j mod sw) < w)" if "j < length buf" for j
    using that yh "0.prems"(2) by simp
  then show ?case unfolding stop by auto
next
  case (Suc n)
  have y: "y < h" using Suc.hyps(2) by simp
  then have y1: "Suc y \<le> h" by simp
  have "Suc y * w \<le> h * w" using y1 by (rule mult_le_mono1)
  then have dat: "4 * (y * w + w) \<le> length dat" using Suc.prems(1) by simp
  have "Suc y * sw \<le> h * sw" using y1 by (rule mult_le_mono1)
  then have bufl: "y * sw + sw \<le> length buf" using Suc.prems(2) by simp
  obtain buf1 where
    row: "createMask_row dat w t (int sw) y (4 * (y * w) + 3) buf
           = Inr (4 * (y * w + w) + 3, buf1)" and
    l1: "length buf1 = length buf" and
    n1: "\<And>j. j < length buf \<Longrightarrow>
          (if y * sw \<le> j \<and> j < y * sw + sw \<and> 8 * (j - y * sw) < w
          then (\<forall>k<8. bit (buf1 ! j) k \<longleftrightarrow>
                  8 * (j - y * sw) + (7 - k) < w
                  \<and> alpha_below dat t (y * w + 8 * (j - y * sw) + (7 - k)))
          else buf1 ! j = buf ! j)"
    using createMask_row_result [OF dat bufl Suc.prems(3), of t] by blast
  have step: "createMask_rows dat w h t (int sw) y (4 * (y * w) + 3) buf
              = createMask_rows dat w h t (int sw) (Suc y) (4 * (Suc y * w) + 3) buf1"
    using row by (simp add: createMask_rows_unfold [OF y] add.commute)
  have "\<exists>buf'. createMask_rows dat w h t (int sw) (Suc y) (4 * (Suc y * w) + 3) buf1 = Inr buf'
    \<and> length buf' = length buf1
    \<and> (\<forall>j<length buf1.
          if Suc y * sw \<le> j \<and> 8 * (j mod sw) < w
          then (\<forall>k<8. bit (buf' ! j) k \<longleftrightarrow>
                  8 * (j mod sw) + (7 - k) < w
                  \<and> alpha_below dat t ((j div sw) * w + 8 * (j mod sw) + (7 - k)))
          else buf' ! j = buf1 ! j)"
  proof (rule Suc.hyps(1))
    show "n = h - Suc y" using Suc.hyps(2) by simp
    show "length buf1 = h * sw" using l1 Suc.prems(2) by simp
  qed (fact Suc.prems(1) Suc.prems(3) y1)+
  then obtain buf' where
    r: "createMask_rows dat w h t (int sw) (Suc y) (4 * (Suc y * w) + 3) buf1 = Inr buf'" and
    l2: "length buf' = length buf" and
    n2: "\<And>j. j < length buf \<Longrightarrow>
          (if Suc y * sw \<le> j \<and> 8 * (j mod sw) < w
          then (\<forall>k<8. bit (buf' ! j) k \<longleftrightarrow>
                  8 * (j mod sw) + (7 - k) < w
                  \<and> alpha_below dat t ((j div sw) * w + 8 * (j mod sw) + (7 - k)))
          else buf' ! j = buf1 ! j)"
    unfolding l1 by blast
  have "if y * sw \<le> j \<and> 8 * (j mod sw) < w
          then (\<forall>k<8. bit (buf' ! j) k \<longleftrightarrow>
                  8 * (j mod sw) + (7 - k) < w
                  \<and> alpha_below dat t ((j div sw) * w + 8 * (j mod sw) + (7 - k)))
          else buf' ! j = buf ! j" if j: "j < length buf" for j
  proof -
    consider "j < y * sw" | "y * sw \<le> j" "j < y * sw + sw" | "Suc y * sw \<le> j"
      by (simp add: not_less) linarith
    then show ?thesis
    proof cases
      case 1
      then have a: "\<not> (Suc y * sw \<le> j \<and> 8 * (j mod sw) < w)" by simp
      have b: "\<not> (y * sw \<le> j \<and> j < y * sw + sw \<and> 8 * (j - y * sw) < w)" using 1 by simp
      have c: "\<not> (y * sw \<le> j \<and> 8 * (j mod sw) < w)" using 1 by simp
      from n2 [OF j] have "buf' ! j = buf1 ! j" by (simp only: a if_False)
      moreover from n1 [OF j] have "buf1 ! j = buf ! j" by (simp only: b if_False)
      ultimately show ?thesis by (simp only: c if_False)
    next
      case 2
      note dm = div_mod_window [OF 2]
      have a: "\<not> (Suc y * sw \<le> j \<and> 8 * (j mod sw) < w)" using 2 by simp
      from n2 [OF j] have e: "buf' ! j = buf1 ! j" by (simp only: a if_False)
      have c: "(y * sw \<le> j \<and> j < y * sw + sw \<and> 8 * (j - y * sw) < w)
               \<longleftrightarrow> (y * sw \<le> j \<and> 8 * (j mod sw) < w)"
        using 2 dm by simp
      from n1 [OF j] show ?thesis
        unfolding e c dm .
    next
      case 3
      then have o: "y * sw \<le> j" "\<not> j < y * sw + sw" by simp_all
      have b: "\<not> (y * sw \<le> j \<and> j < y * sw + sw \<and> 8 * (j - y * sw) < w)" using o by simp
      from n1 [OF j] have e: "buf1 ! j = buf ! j" by (simp only: b if_False)
      have c: "(Suc y * sw \<le> j \<and> 8 * (j mod sw) < w) \<longleftrightarrow> (y * sw \<le> j \<and> 8 * (j mod sw) < w)"
        using 3 o by simp
      from n2 [OF j] show ?thesis
        unfolding e c .
    qed
  qed
  then have all: "\<forall>j<length buf. if y * sw \<le> j \<and> 8 * (j mod sw) < w
          then (\<forall>k<8. bit (buf' ! j) k \<longleftrightarrow>
                  8 * (j mod sw) + (7 - k) < w
                  \<and> alpha_below dat t ((j div sw) * w + 8 * (j mod sw) + (7 - k)))
          else buf' ! j = buf ! j" by blast
  show ?case
  proof (intro exI conjI)
    show "createMask_rows dat w h t (int sw) y (4 * (y * w) + 3) buf = Inr buf'"
      unfolding step by (rule r)
    show "length buf' = length buf" by (rule l2)
    show "\<forall>j<length buf. if y * sw \<le> j \<and> 8 * (j mod sw) < w
          then (\<forall>k<8. bit (buf' ! j) k \<longleftrightarrow>
                  8 * (j mod sw) + (7 - k) < w
                  \<and> alpha_below dat t ((j div sw) * w + 8 * (j mod sw) + (7 - k)))
          else buf' ! j = buf ! j" by (rule all)
  qed
qed

lemma createMask_result:
  assumes "w \<le> 2147483616" "length dat = 4 * (h * w)"
  shows "\<exists>m. createMask dat w h t = Inr m \<and> length m = h * ((w + 31) div 32 * 4)
    \<and> (\<forall>j<h * ((w + 31) div 32 * 4). \<forall>k<8. bit (m ! j) k \<longleftrightarrow>
          8 * (j mod ((w + 31) div 32 * 4)) + (7 - k) < w
          \<and> alpha_below dat t ((j div ((w + 31) div 32 * 4)) * w
                                + 8 * (j mod ((w + 31) div 32 * 4)) + (7 - k)))"
proof -
  define sw where "sw = (w + 31) div 32 * 4"
  define buf where "buf = bufferAlloc (h * sw)"
  have scan: "getMaskScanWidth w = int sw"
    unfolding sw_def using assms(1) by (rule getMaskScanWidth_small)
  have wsw: "w \<le> 8 * sw" unfolding sw_def by presburger
  have lb: "length buf = h * sw" by (simp add: buf_def bufferAlloc_def)
  have cm: "createMask dat w h t = createMask_rows dat w h t (int sw) 0 (4 * (0 * w) + 3) buf"
  proof -
    have "int sw * int h = int (h * sw)" by simp
    then have "nat (int sw * int h) = h * sw" by (simp only: nat_int)
    moreover have "\<not> int sw * int h < 0" by (simp add: not_less)
    ultimately show ?thesis
      unfolding createMask_def scan Let_def buf_def by simp
  qed
  obtain m where
    r: "createMask_rows dat w h t (int sw) 0 (4 * (0 * w) + 3) buf = Inr m" and
    l: "length m = length buf" and
    n: "\<And>j. j < length buf \<Longrightarrow>
          (if 0 * sw \<le> j \<and> 8 * (j mod sw) < w
          then (\<forall>k<8. bit (m ! j) k \<longleftrightarrow>
                  8 * (j mod sw) + (7 - k) < w
                  \<and> alpha_below dat t ((j div sw) * w + 8 * (j mod sw) + (7 - k)))
          else m ! j = buf ! j)"
    using createMask_rows_loop [OF assms(2) lb wsw, of 0 t] by blast
  have "bit (m ! j) k \<longleftrightarrow>
          8 * (j mod sw) + (7 - k) < w
          \<and> alpha_below dat t ((j div sw) * w + 8 * (j mod sw) + (7 - k))"
    if j: "j < h * sw" and k: "k < 8" for j k
  proof (cases "8 * (j mod sw) < w")
    case True
    then have c: "0 * sw \<le> j \<and> 8 * (j mod sw) < w" by simp
    have jl: "j < length buf" using j lb by simp
    from n [OF jl] have "\<forall>k<8. bit (m ! j) k \<longleftrightarrow>
                  8 * (j mod sw) + (7 - k) < w
                  \<and> alpha_below dat t ((j div sw) * w + 8 * (j mod sw) + (7 - k))"
      by (simp only: c if_True simp_thms)
    then show ?thesis using k by blast
  next
    case False
    then have c: "\<not> (0 * sw \<le> j \<and> 8 * (j mod sw) < w)" by simp
    have jl: "j < length buf" using j lb by simp
    from n [OF jl] have "m ! j = buf ! j" by (simp only: c if_False simp_thms)
    then have "m ! j = 0" using j by (simp add: buf_def bufferAlloc_def)
    moreover have "\<not> 8 * (j mod sw) + (7 - k) < w" using False by linarith
    ultimately show ?thesis by simp
  qed
  then show ?thesis
    unfolding sw_def [symmetric] cm r using l lb by simp
qed

text \<open>
  C3. For a width and a height from 1 to 256 and a transposed buffer of width times height
  times 4 bytes, the mask packer returns ceil(width / 32) times 4 times height bytes. The bit
  of pixel (x, y), bit 7 - x mod 8 of byte y * scanWidth + x div 8, is set exactly when the
  alpha byte of that pixel is below the threshold, and every bit that belongs to no pixel
  is clear.
\<close>

theorem createMask_bits:
  assumes "1 \<le> w" "w \<le> 256" "1 \<le> h" "h \<le> 256" "length dib = w * h * 4"
  shows "\<exists>m. createMask dib w h t = Inr m
    \<and> length m = ((w + 31) div 32 * 4) * h
    \<and> (\<forall>x<w. \<forall>y<h.
          bit (m ! (y * ((w + 31) div 32 * 4) + x div 8)) (7 - x mod 8)
          \<longleftrightarrow> uint (dib ! ((y * w + x) * 4 + 3)) < t)
    \<and> (\<forall>j<((w + 31) div 32 * 4) * h. \<forall>k<8.
          w \<le> 8 * (j mod ((w + 31) div 32 * 4)) + (7 - k) \<longrightarrow> \<not> bit (m ! j) k)"
proof -
  define sw where "sw = (w + 31) div 32 * 4"
  have wsw: "w \<le> 8 * sw" unfolding sw_def by presburger
  have len: "length dib = 4 * (h * w)" using assms(5) by (simp add: mult_ac)
  have small: "w \<le> 2147483616" using assms(2) by simp
  obtain m where
    r: "createMask dib w h t = Inr m" and
    l: "length m = h * sw" and
    n: "\<And>j k. j < h * sw \<Longrightarrow> k < 8 \<Longrightarrow> bit (m ! j) k \<longleftrightarrow>
          8 * (j mod sw) + (7 - k) < w
          \<and> alpha_below dib t ((j div sw) * w + 8 * (j mod sw) + (7 - k))"
    using createMask_result [OF small len, of t] unfolding sw_def [symmetric] by blast
  have px: "bit (m ! (y * sw + x div 8)) (7 - x mod 8) \<longleftrightarrow> uint (dib ! ((y * w + x) * 4 + 3)) < t"
    if x: "x < w" and y: "y < h" for x y
  proof -
    have c: "x div 8 < sw" using x wsw by linarith
    have win: "y * sw \<le> y * sw + x div 8" "y * sw + x div 8 < y * sw + sw" using c by simp_all
    note dm = div_mod_window [OF win]
    have "Suc y * sw \<le> h * sw" using y by (intro mult_le_mono1) simp
    then have j: "y * sw + x div 8 < h * sw" using c by simp
    have k: "7 - x mod 8 < 8" by simp
    have k7: "7 - (7 - x mod 8) = x mod 8"
    proof -
      have "x mod 8 < 8" by simp
      then show ?thesis by linarith
    qed
    have xx: "8 * (x div 8) + x mod 8 = x" by simp
    have "bit (m ! (y * sw + x div 8)) (7 - x mod 8) \<longleftrightarrow>
          8 * (x div 8) + x mod 8 < w \<and> alpha_below dib t (y * w + 8 * (x div 8) + x mod 8)"
      using n [OF j k] unfolding dm k7 by simp
    also have "\<dots> \<longleftrightarrow> alpha_below dib t (y * w + x)"
      unfolding add.assoc xx using x by simp
    also have "\<dots> \<longleftrightarrow> uint (dib ! ((y * w + x) * 4 + 3)) < t"
      by (simp add: alpha_below_def mult.commute)
    finally show ?thesis .
  qed
  have pad: "\<not> bit (m ! j) k" if "j < sw * h" "k < 8" "w \<le> 8 * (j mod sw) + (7 - k)" for j k
    using n [of j k] that by (simp add: mult.commute)
  show ?thesis
    unfolding sw_def [symmetric] using r l px pad by (simp add: mult.commute)
qed

theorem createMask_bits_witness:
  "(1::nat) \<le> 2 \<and> (2::nat) \<le> 256 \<and> (1::nat) \<le> 1 \<and> (1::nat) \<le> 256
   \<and> length [9, 9, 9, 0, 9, 9, 9, 255 :: byte] = 2 * 1 * 4
   \<and> createMask [9, 9, 9, 0, 9, 9, 9, 255] 2 1 1 = Inr [128, 0, 0, 0]
   \<and> (\<exists>m. createMask [9, 9, 9, 0, 9, 9, 9, 255] 2 1 1 = Inr m
        \<and> length m = ((2 + 31) div 32 * 4) * 1
        \<and> (\<forall>x<2. \<forall>y<1.
              bit (m ! (y * ((2 + 31) div 32 * 4) + x div 8)) (7 - x mod 8)
              \<longleftrightarrow> uint ([9, 9, 9, 0, 9, 9, 9, 255 :: byte] ! ((y * 2 + x) * 4 + 3)) < 1))"
proof -
  have c: "createMask [9, 9, 9, 0, 9, 9, 9, 255] 2 1 1 = Inr [128, 0, 0, 0]"
    by code_simp
  have l: "length [9, 9, 9, 0, 9, 9, 9, 255 :: byte] = 2 * 1 * 4" by simp
  have b: "(1::nat) \<le> 2" "(2::nat) \<le> 256" "(1::nat) \<le> 1" "(1::nat) \<le> 256" by simp_all
  from createMask_bits [OF b l, of 1]
  have "\<exists>m. createMask [9, 9, 9, 0, 9, 9, 9, 255] 2 1 1 = Inr m
        \<and> length m = ((2 + 31) div 32 * 4) * 1
        \<and> (\<forall>x<2. \<forall>y<1.
              bit (m ! (y * ((2 + 31) div 32 * 4) + x div 8)) (7 - x mod 8)
              \<longleftrightarrow> uint ([9, 9, 9, 0, 9, 9, 9, 255 :: byte] ! ((y * 2 + x) * 4 + 3)) < 1)"
    by blast
  then show ?thesis using c l by simp
qed

section \<open>The assembled file\<close>

lemma length_dir_entries [simp]: "length (dir_entries xs off) = length xs"
  by (induction xs arbitrary: off) simp_all

lemma length_directory_bytes [simp]: "length (directory_bytes x off) = 16"
  by (simp add: directory_bytes_def)

lemma length_bitmap_bytes [simp]: "length (bitmap_bytes x c) = 40"
  by (simp add: bitmap_bytes_def)

lemma dir_entries_nth:
  "i < length xs \<Longrightarrow>
   dir_entries xs off ! i
   = directory_bytes (xs ! i) (off + sum_list (map block_size (take i xs)))"
proof (induction xs arbitrary: off i)
  case Nil
  then show ?case by simp
next
  case (Cons x xs)
  show ?case
  proof (cases i)
    case 0
    then show ?thesis by simp
  next
    case (Suc j)
    then have "j < length xs" using Cons.prems by simp
    from Cons.IH [OF this, of "off + block_size x"] Suc show ?thesis
      by (simp add: add.assoc)
  qed
qed

lemma length_concat_dir_entries [simp]:
  "length (concat (dir_entries xs off)) = 16 * length xs"
  by (induction xs arbitrary: off) simp_all

lemma generateIco_dirs_Inr:
  assumes "generateIco_dirs xs arr len off = Inr (arr', len', off')"
  shows "arr' = arr @ dir_entries xs off \<and> len' = len + 16 * length xs
    \<and> off' = off + sum_list (map block_size xs)
    \<and> (\<forall>i<length xs.
          createDirectory (xs ! i) (off + sum_list (map block_size (take i xs)))
          = Inr (dir_entries xs off ! i, block_size (xs ! i)))"
  using assms
proof (induction xs arbitrary: arr len off)
  case Nil
  then show ?case by simp
next
  case (Cons x xs)
  from Cons.prems obtain buf sz where
    d: "createDirectory x off = Inr (buf, sz)" and
    rec: "generateIco_dirs xs (arr @ [buf]) (len + length buf) (off + sz) = Inr (arr', len', off')"
    by (auto simp: bind_err_eq_Inr)
  from createDirectory_Inr [OF d] have
    buf: "buf = directory_bytes x off" and sz: "sz = block_size x" by simp_all
  note ih = Cons.IH [OF rec]
  have "createDirectory ((x # xs) ! i) (off + sum_list (map block_size (take i (x # xs))))
          = Inr (dir_entries (x # xs) off ! i, block_size ((x # xs) ! i))"
    if i: "i < length (x # xs)" for i
  proof (cases i)
    case 0
    then show ?thesis using d buf sz by simp
  next
    case (Suc j)
    then have "j < length xs" using i by simp
    then show ?thesis using ih Suc sz by (simp add: add.assoc)
  qed
  then show ?case using ih buf sz by (simp add: add.assoc)
qed

lemma createMask_full_length:
  "createMask_full dat w t x srcPos dstPos buf = Inr (s, d, buf') \<Longrightarrow> length buf' = length buf"
proof (induction dat w t x srcPos dstPos buf rule: createMask_full.induct)
  case (1 dat w t x srcPos dstPos buf)
  show ?case
  proof (cases "int x < int w - 7")
    case True
    from "1.prems" True obtain v buf1 where
      wr: "writeUInt8 v dstPos buf = Inr buf1" and
      rec: "createMask_full dat w t (x + 8) (srcPos + 32) (dstPos + 1) buf1 = Inr (s, d, buf')"
      unfolding createMask_full_alt [of dat w t x srcPos dstPos buf]
      by (auto simp: bind_err_eq_Inr)
    from "1.IH" [OF True rec] writeUInt8_length [OF wr] show ?thesis by simp
  next
    case False
    with "1.prems" show ?thesis
      unfolding createMask_full_alt [of dat w t x srcPos dstPos buf] by simp
  qed
qed

lemma createMask_row_length:
  assumes "createMask_row dat w t sw y srcPos buf = Inr (s, buf')"
  shows "length buf' = length buf"
proof -
  from assms obtain s1 d1 b1 where
    f: "createMask_full dat w t 0 srcPos (int y * sw) buf = Inr (s1, d1, b1)" and
    r: "(if w mod 8 \<noteq> 0 then
            bind_err (createMask_rest dat w t 0 s1 0) (\<lambda>(srcPos, msk).
            bind_err (writeUInt8 msk d1 b1) (\<lambda>buf.
            Inr (srcPos, buf)))
          else Inr (s1, b1)) = Inr (s, buf')"
    unfolding createMask_row_def by (auto simp: bind_err_eq_Inr)
  have l1: "length b1 = length buf" using f by (rule createMask_full_length)
  show ?thesis
  proof (cases "w mod 8 \<noteq> 0")
    case True
    with r obtain msk where "writeUInt8 msk d1 b1 = Inr buf'"
      by (auto simp: bind_err_eq_Inr)
    then show ?thesis using l1 by (auto dest: writeUInt8_length)
  next
    case False
    with r l1 show ?thesis by simp
  qed
qed

lemma createMask_rows_length:
  "createMask_rows dat w h t sw y srcPos buf = Inr buf' \<Longrightarrow> length buf' = length buf"
proof (induction "h - y" arbitrary: y srcPos buf)
  case 0
  then have "\<not> y < h" by simp
  with "0.prems" show ?case by (simp add: createMask_rows_stop)
next
  case (Suc n)
  then have y: "y < h" by simp
  from Suc.prems obtain s1 b1 where
    row: "createMask_row dat w t sw y srcPos buf = Inr (s1, b1)" and
    rec: "createMask_rows dat w h t sw (y + 1) s1 b1 = Inr buf'"
    unfolding createMask_rows_unfold [OF y] by (auto simp: bind_err_eq_Inr)
  have "n = h - (y + 1)" using Suc.hyps(2) by simp
  from Suc.hyps(1) [OF this rec] createMask_row_length [OF row] show ?case by simp
qed

lemma createMask_length:
  assumes "createMask dat w h t = Inr m"
  shows "int (length m) = getMaskScanWidth w * int h"
proof -
  have nonneg: "\<not> getMaskScanWidth w * int h < 0"
    using assms by (auto simp: createMask_def Let_def split: if_splits)
  then have "createMask_rows dat w h t (getMaskScanWidth w) 0 3
               (bufferAlloc (nat (getMaskScanWidth w * int h))) = Inr m"
    using assms by (simp add: createMask_def Let_def)
  from createMask_rows_length [OF this] nonneg show ?thesis
    by (simp add: bufferAlloc_def)
qed

lemma createBlock_Inr:
  assumes "createBlock x = Inr (bh, dib, m)"
  shows "bh = bitmap_bytes x colorMode"
    and "createDib (data x) (width x) (height x) (bpp x) = Inr dib"
    and "length dib = length (data x)"
    and "bpp x = 4 \<Longrightarrow> createMask dib (width x) (height x) 1 = Inr m"
    and "bpp x \<noteq> 4 \<Longrightarrow> m = []"
    and "int (length (bh @ dib @ m)) = block_size x"
proof -
  from assms have
    h: "createBitmap x colorMode = Inr bh" and
    d: "createDib (data x) (width x) (height x) (bpp x) = Inr dib" and
    m: "(if bpp x = 4 then createMask dib (width x) (height x) 1 else Inr (bufferAlloc 0)) = Inr m"
    unfolding createBlock_def by (auto simp: bind_err_eq_Inr)
  show bh: "bh = bitmap_bytes x colorMode" using h by (rule createBitmap_Inr)
  show "createDib (data x) (width x) (height x) (bpp x) = Inr dib" by (rule d)
  show ld: "length dib = length (data x)" using d by (rule createDib_length)
  show m4: "createMask dib (width x) (height x) 1 = Inr m" if "bpp x = 4"
    using m that by simp
  show m3: "m = []" if "bpp x \<noteq> 4" using m that by (simp add: bufferAlloc_def)
  show "int (length (bh @ dib @ m)) = block_size x"
  proof (cases "bpp x = 4")
    case True
    from createMask_length [OF m4 [OF True]] True show ?thesis
      by (simp add: block_size_def bh ld bitmapSize_def)
  next
    case False
    from m3 [OF False] False show ?thesis
      by (simp add: block_size_def bh ld bitmapSize_def)
  qed
qed

lemma length_header_bytes [simp]: "length (header_bytes n) = 6"
  by (simp add: header_bytes_def)

lemma createHeader_Inr:
  assumes "createHeader n = Inr h"
  shows "n \<le> 65535" "h = header_bytes n"
proof -
  show n: "n \<le> 65535"
    using assms unfolding createHeader_def
    by (simp add: bind_err_eq_Inr writeUInt16LE_eq_Inr)
  then show "h = header_bytes n"
    using assms by (simp add: createHeader_layout header_bytes_def)
qed

lemma generateIco_blocks_Inr:
  assumes "generateIco_blocks xs arr len = Inr (arr', len')"
  shows "\<exists>parts. list_all2 (\<lambda>x p. createBlock x = Inr p) xs parts
    \<and> concat arr' = concat arr @ concat (map block_bytes parts)
    \<and> len' = len + length (concat (map block_bytes parts))"
  using assms
proof (induction xs arbitrary: arr len)
  case Nil
  then show ?case by simp
next
  case (Cons x xs)
  from Cons.prems obtain bh dib m where
    b: "createBlock x = Inr (bh, dib, m)" and
    rec: "generateIco_blocks xs (arr @ [bh, dib, m]) (len + (length bh + length dib + length m))
            = Inr (arr', len')"
    by (auto simp: bind_err_eq_Inr)
  from Cons.IH [OF rec] obtain parts where
    p: "list_all2 (\<lambda>x p. createBlock x = Inr p) xs parts" and
    c: "concat arr' = concat (arr @ [bh, dib, m]) @ concat (map block_bytes parts)" and
    l: "len' = len + (length bh + length dib + length m) + length (concat (map block_bytes parts))"
    by blast
  have "list_all2 (\<lambda>x p. createBlock x = Inr p) (x # xs) ((bh, dib, m) # parts)"
    using b p by simp
  moreover have "concat arr' = concat arr @ concat (map block_bytes ((bh, dib, m) # parts))"
    using c by (simp add: block_bytes_def)
  moreover have "len' = len + length (concat (map block_bytes ((bh, dib, m) # parts)))"
    using l by (simp add: block_bytes_def)
  ultimately show ?case by blast
qed

lemma Buffer_concat_exact: "Buffer_concat arr (length (concat arr)) = concat arr"
  by (simp add: Buffer_concat_def)

lemma generateIco_then_Inr:
  assumes "generateIco_then imgs = Inr out"
  shows "\<exists>parts. length imgs \<le> 65535
    \<and> list_all2 (\<lambda>x p. createBlock x = Inr p) imgs parts
    \<and> out = header_bytes (length imgs)
            @ concat (dir_entries imgs (6 + 16 * int (length imgs)))
            @ concat (map block_bytes parts)
    \<and> (\<forall>i<length imgs.
          createDirectory (imgs ! i)
            (6 + 16 * int (length imgs) + sum_list (map block_size (take i imgs)))
          = Inr (dir_entries imgs (6 + 16 * int (length imgs)) ! i, block_size (imgs ! i)))"
proof -
  from assms obtain h arr1 len1 off1 arr2 len2 where
    h: "createHeader (length imgs) = Inr h" and
    d: "generateIco_dirs imgs [h] (length h) (6 + 16 * int (length imgs))
          = Inr (arr1, len1, off1)" and
    b: "generateIco_blocks imgs arr1 len1 = Inr (arr2, len2)" and
    o: "out = Buffer_concat arr2 len2"
    unfolding generateIco_then_def
    by (auto simp: bind_err_eq_Inr headerSize_def directorySize_def)
  note hh = createHeader_Inr [OF h]
  note dd = generateIco_dirs_Inr [OF d]
  from generateIco_blocks_Inr [OF b] obtain parts where
    p: "list_all2 (\<lambda>x p. createBlock x = Inr p) imgs parts" and
    c: "concat arr2 = concat arr1 @ concat (map block_bytes parts)" and
    l: "len2 = len1 + length (concat (map block_bytes parts))"
    by blast
  have c2: "concat arr2 = header_bytes (length imgs)
            @ concat (dir_entries imgs (6 + 16 * int (length imgs)))
            @ concat (map block_bytes parts)"
    using c dd hh by simp
  have "len2 = length (concat arr2)"
    unfolding c2 using l dd hh by simp
  then have "out = concat arr2" using o by (simp add: Buffer_concat_exact)
  then show ?thesis using c2 p hh dd by auto
qed

lemma blocks_total_length:
  assumes "list_all2 (\<lambda>x p. createBlock x = Inr p) xs parts"
  shows "length (concat (map block_bytes parts))
         = sum_list (map (\<lambda>(bh, dib, m). 40 + length dib + length m) parts)"
  using assms
proof (induction rule: list_all2_induct)
  case Nil
  then show ?case by simp
next
  case (Cons x xs p parts)
  obtain bh dib m where p: "p = (bh, dib, m)" by (cases p) auto
  from Cons.hyps(1) have "bh = bitmap_bytes x colorMode"
    unfolding p by (rule createBlock_Inr(1))
  then have "length (block_bytes p) = 40 + length dib + length m"
    by (simp add: p block_bytes_def)
  then show ?case using Cons.IH by (simp add: p)
qed

text \<open>
  C1. Whenever the encoder returns a buffer for N decoded images, the buffer is the 6-byte
  header, then the N directory entries of 16 bytes in the order of the images, then the N
  blocks (bitmap header, transposed pixels, mask) in the same order, and its length is
  6 + 16 N + the sum over the images of 40 + length of the transposed pixels + length of the
  mask. For no image at all the buffer is the header alone.
\<close>

theorem generateIco_layout:
  "(generateIco_then imgs = Inr out \<longrightarrow>
      (\<exists>header dirs blocks.
          createHeader (length imgs) = Inr header \<and> length header = 6
        \<and> length dirs = length imgs
        \<and> (\<forall>i<length imgs. length (dirs ! i) = 16
              \<and> (\<exists>off. createDirectory (imgs ! i) off = Inr (dirs ! i, block_size (imgs ! i))))
        \<and> list_all2 (\<lambda>x p. createBlock x = Inr p) imgs blocks
        \<and> out = header @ concat dirs @ concat (map (\<lambda>(bh, dib, m). bh @ dib @ m) blocks)
        \<and> length out = 6 + 16 * length imgs
             + sum_list (map (\<lambda>(bh, dib, m). 40 + length dib + length m) blocks)))
   \<and> generateIco_then [] = Inr [0, 0, 1, 0, 0, 0]"
proof (intro conjI impI)
  assume "generateIco_then imgs = Inr out"
  from generateIco_then_Inr [OF this] obtain parts where
    n: "length imgs \<le> 65535" and
    p: "list_all2 (\<lambda>x p. createBlock x = Inr p) imgs parts" and
    o: "out = header_bytes (length imgs)
            @ concat (dir_entries imgs (6 + 16 * int (length imgs)))
            @ concat (map block_bytes parts)" and
    d: "\<And>i. i < length imgs \<Longrightarrow>
          createDirectory (imgs ! i)
            (6 + 16 * int (length imgs) + sum_list (map block_size (take i imgs)))
          = Inr (dir_entries imgs (6 + 16 * int (length imgs)) ! i, block_size (imgs ! i))"
    by blast
  define dirs where "dirs = dir_entries imgs (6 + 16 * int (length imgs))"
  have bb: "block_bytes = (\<lambda>(bh, dib, m). bh @ dib @ m)"
    by (auto simp: block_bytes_def fun_eq_iff)
  have "createHeader (length imgs) = Inr (header_bytes (length imgs))"
    using n by (simp add: createHeader_layout header_bytes_def)
  moreover have "length (header_bytes (length imgs)) = 6" by simp
  moreover have "length dirs = length imgs" by (simp add: dirs_def)
  moreover have "\<forall>i<length imgs. length (dirs ! i) = 16
              \<and> (\<exists>off. createDirectory (imgs ! i) off = Inr (dirs ! i, block_size (imgs ! i)))"
    using d unfolding dirs_def by (auto simp: dir_entries_nth)
  moreover note p
  moreover have "out = header_bytes (length imgs) @ concat dirs
                   @ concat (map (\<lambda>(bh, dib, m). bh @ dib @ m) parts)"
    using o by (simp add: dirs_def bb)
  moreover have "length out = 6 + 16 * length imgs
             + sum_list (map (\<lambda>(bh, dib, m). 40 + length dib + length m) parts)"
    unfolding o using blocks_total_length [OF p] by simp
  ultimately show "\<exists>header dirs blocks.
          createHeader (length imgs) = Inr header \<and> length header = 6
        \<and> length dirs = length imgs
        \<and> (\<forall>i<length imgs. length (dirs ! i) = 16
              \<and> (\<exists>off. createDirectory (imgs ! i) off = Inr (dirs ! i, block_size (imgs ! i))))
        \<and> list_all2 (\<lambda>x p. createBlock x = Inr p) imgs blocks
        \<and> out = header @ concat dirs @ concat (map (\<lambda>(bh, dib, m). bh @ dib @ m) blocks)
        \<and> length out = 6 + 16 * length imgs
             + sum_list (map (\<lambda>(bh, dib, m). 40 + length dib + length m) blocks)"
    by blast
next
  show "generateIco_then [] = Inr [0, 0, 1, 0, 0, 0]"
    by (simp add: generateIco_then_def createHeader_layout le16_bytes_def Buffer_concat_def)
qed

lemma generateIco_then_example:
  "generateIco_then [\<lparr>width = 1, height = 1, bpp = 4, data = [1, 2, 3, 0]\<rparr>]
   = Inr [0, 0, 1, 0, 1, 0,
          1, 1, 0, 0, 1, 0, 32, 0, 48, 0, 0, 0, 22, 0, 0, 0,
          40, 0, 0, 0, 1, 0, 0, 0, 2, 0, 0, 0, 1, 0, 32, 0, 0, 0, 0, 0, 4, 0, 0, 0,
          0, 0, 0, 0, 0, 0, 0, 0, 0, 0, 0, 0, 0, 0, 0, 0,
          3, 2, 1, 0,
          128, 0, 0, 0]"
  by code_simp

lemma u32_at_Cons: "0 < n \<Longrightarrow> u32_at (x # xs) n = u32_at xs (n - 1)"
  using u32_at_skip [of "[x]" n xs] by simp

lemma directory_bytes_fields:
  assumes "0 \<le> block_size x" "block_size x \<le> 4294967295" "0 \<le> off" "off \<le> 4294967295"
  shows "u32_at (directory_bytes x off) 8 = block_size x"
    and "u32_at (directory_bytes x off) 12 = off"
  using assms
  by (simp_all add: directory_bytes_def u32_at_Cons u32_at_skip u32_at_le32_bytes
        u32_at_le32_bytes_end)

lemma u32_at_dir_entries:
  assumes "i < length xs" "k + 4 \<le> 16"
  shows "u32_at (concat (dir_entries xs off) @ rest) (16 * i + k)
         = u32_at (dir_entries xs off ! i) k"
  using assms(1)
proof (induction xs arbitrary: off i)
  case Nil
  then show ?case by simp
next
  case (Cons x xs)
  show ?case
  proof (cases i)
    case 0
    then show ?thesis using assms(2) by (simp add: u32_at_take)
  next
    case (Suc j)
    then have j: "j < length xs" using Cons.prems by simp
    have "u32_at (directory_bytes x off @ concat (dir_entries xs (off + block_size x)) @ rest)
            (16 * Suc j + k)
          = u32_at (concat (dir_entries xs (off + block_size x)) @ rest) (16 * j + k)"
      by (subst u32_at_skip) simp_all
    then show ?thesis using Cons.IH [OF j] Suc by simp
  qed
qed

lemma take_drop_dir_entries:
  assumes "i < length xs"
  shows "take 16 (drop (16 * i) (concat (dir_entries xs off) @ rest)) = dir_entries xs off ! i"
  using assms
proof (induction xs arbitrary: off i)
  case Nil
  then show ?case by simp
next
  case (Cons x xs)
  show ?case
  proof (cases i)
    case 0
    then show ?thesis by simp
  next
    case (Suc j)
    then have j: "j < length xs" using Cons.prems by simp
    from Cons.IH [OF j] Suc show ?thesis by simp
  qed
qed

lemma blocks_sizes:
  assumes "list_all2 (\<lambda>x p. createBlock x = Inr p) xs parts"
  shows "sum_list (map block_size xs) = int (length (concat (map block_bytes parts)))"
  using assms
proof (induction rule: list_all2_induct)
  case Nil
  then show ?case by simp
next
  case (Cons x xs p parts)
  obtain bh dib m where p: "p = (bh, dib, m)" by (cases p) auto
  from Cons.hyps(1) have "int (length (bh @ dib @ m)) = block_size x"
    unfolding p by (rule createBlock_Inr(6))
  then have "int (length (block_bytes p)) = block_size x"
    by (simp add: p block_bytes_def)
  then show ?case using Cons.IH by simp
qed

lemma generateIco_then_entry:
  assumes "generateIco_then imgs = Inr out" "i < length imgs"
  shows "dir_blockSize out i = block_size (imgs ! i)
    \<and> dir_fileOffset out i
        = 6 + 16 * int (length imgs) + sum_list (map block_size (take i imgs))
    \<and> createDirectory (imgs ! i) (dir_fileOffset out i)
        = Inr (take 16 (drop (6 + 16 * i) out), dir_blockSize out i)
    \<and> (\<exists>bh dib m. createBlock (imgs ! i) = Inr (bh, dib, m)
          \<and> dir_blockSize out i = int (length (bh @ dib @ m))
          \<and> take (nat (dir_blockSize out i)) (drop (nat (dir_fileOffset out i)) out)
              = bh @ dib @ m)"
proof -
  define off0 where "off0 = 6 + 16 * int (length imgs)"
  define offs where "offs = (\<lambda>j. off0 + sum_list (map block_size (take j imgs)))"
  from generateIco_then_Inr [OF assms(1)] obtain parts where
    p: "list_all2 (\<lambda>x p. createBlock x = Inr p) imgs parts" and
    o: "out = header_bytes (length imgs) @ concat (dir_entries imgs off0)
            @ concat (map block_bytes parts)" and
    d: "\<And>j. j < length imgs \<Longrightarrow>
          createDirectory (imgs ! j) (offs j) = Inr (dir_entries imgs off0 ! j, block_size (imgs ! j))"
    unfolding off0_def offs_def by blast
  have lp: "length parts = length imgs" using p by (simp add: list_all2_lengthD)
  have entry: "dir_entries imgs off0 ! j = directory_bytes (imgs ! j) (offs j)"
    if "j < length imgs" for j
    using that by (simp add: dir_entries_nth offs_def)
  have field: "u32_at out (6 + 16 * j + k) = u32_at (directory_bytes (imgs ! j) (offs j)) k"
    if j: "j < length imgs" and k: "k + 4 \<le> 16" for j k
  proof -
    have "u32_at out (6 + 16 * j + k)
          = u32_at (concat (dir_entries imgs off0) @ concat (map block_bytes parts)) (16 * j + k)"
      unfolding o by (subst u32_at_skip) (simp_all add: add.assoc)
    then show ?thesis using u32_at_dir_entries [OF j k] entry [OF j] by simp
  qed
  have fits: "0 \<le> block_size (imgs ! j) \<and> block_size (imgs ! j) \<le> 4294967295
              \<and> 0 \<le> offs j \<and> offs j \<le> 4294967295" if "j < length imgs" for j
    using createDirectory_Inr [OF d [OF that]] by simp
  have k8: "8 + 4 \<le> (16 :: nat)" and k12: "12 + 4 \<le> (16 :: nat)" by simp_all
  have size: "dir_blockSize out j = block_size (imgs ! j)" if j: "j < length imgs" for j
    unfolding dir_blockSize_def field [OF j k8]
    using fits [OF j] by (intro directory_bytes_fields(1)) simp_all
  have offset: "dir_fileOffset out j = offs j" if j: "j < length imgs" for j
    unfolding dir_fileOffset_def field [OF j k12]
    using fits [OF j] by (intro directory_bytes_fields(2)) simp_all
  have "take 16 (drop (6 + 16 * i) out) = dir_entries imgs off0 ! i"
  proof -
    have "drop (6 + 16 * i) out
          = drop (16 * i) (concat (dir_entries imgs off0) @ concat (map block_bytes parts))"
      unfolding o by (simp add: drop_append)
    then show ?thesis using take_drop_dir_entries [OF assms(2)] by simp
  qed
  then have dir: "createDirectory (imgs ! i) (dir_fileOffset out i)
        = Inr (take 16 (drop (6 + 16 * i) out), dir_blockSize out i)"
    using d [OF assms(2)] offset [OF assms(2)] size [OF assms(2)] by simp
  obtain bh dib m where pi: "parts ! i = (bh, dib, m)" by (cases "parts ! i") auto
  have cb: "createBlock (imgs ! i) = Inr (bh, dib, m)"
    using list_all2_nthD [OF p assms(2)] pi by simp
  have bsz: "dir_blockSize out i = int (length (bh @ dib @ m))"
    using size [OF assms(2)] createBlock_Inr(6) [OF cb] by simp
  have block: "take (nat (dir_blockSize out i)) (drop (nat (dir_fileOffset out i)) out)
              = bh @ dib @ m"
  proof -
    define pre where "pre = header_bytes (length imgs) @ concat (dir_entries imgs off0)
                             @ concat (map block_bytes (take i parts))"
    define post where "post = concat (map block_bytes (drop (Suc i) parts))"
    have il: "i < length parts" using assms(2) lp by simp
    have "parts = take i parts @ parts ! i # drop (Suc i) parts"
      using il by (rule id_take_nth_drop)
    then have "concat (map block_bytes parts)
               = concat (map block_bytes (take i parts)) @ block_bytes (parts ! i) @ post"
      unfolding post_def by (metis concat.simps(2) concat_append list.simps(9) map_append)
    then have out: "out = pre @ (bh @ dib @ m) @ post"
      unfolding o pre_def by (simp add: pi block_bytes_def)
    have "list_all2 (\<lambda>x p. createBlock x = Inr p) (take i imgs) (take i parts)"
      using p by (rule list_all2_takeI)
    from blocks_sizes [OF this]
    have "offs i = int (length pre)"
      by (simp add: offs_def off0_def pre_def)
    then have n1: "nat (dir_fileOffset out i) = length pre"
      using offset [OF assms(2)] by simp
    have n2: "nat (dir_blockSize out i) = length (bh @ dib @ m)"
      unfolding bsz by (rule nat_int)
    have "take (length (bh @ dib @ m)) (drop (length pre) out) = bh @ dib @ m"
      unfolding out by simp
    then show ?thesis unfolding n1 n2 .
  qed
  have "dir_fileOffset out i
        = 6 + 16 * int (length imgs) + sum_list (map block_size (take i imgs))"
    using offset [OF assms(2)] by (simp add: offs_def off0_def)
  then show ?thesis using size [OF assms(2)] dir cb bsz block by blast
qed

text \<open>
  C2. In a returned buffer the file offset of directory entry 0 is 6 + 16 N, the file offset
  of every later entry is the offset of the entry before it plus the block size recorded
  there, entry i is the directory entry of image i, and the bytes at the offset of entry i,
  as many as its recorded block size, are the block of image i.
\<close>

theorem directory_offsets:
  assumes "generateIco_then imgs = Inr out" "i < length imgs"
  shows "(i = 0 \<longrightarrow> dir_fileOffset out i = 6 + 16 * int (length imgs))
    \<and> (0 < i \<longrightarrow> dir_fileOffset out i = dir_fileOffset out (i - 1) + dir_blockSize out (i - 1))
    \<and> createDirectory (imgs ! i) (dir_fileOffset out i)
        = Inr (take 16 (drop (6 + 16 * i) out), dir_blockSize out i)
    \<and> (\<exists>bh dib m. createBlock (imgs ! i) = Inr (bh, dib, m)
          \<and> dir_blockSize out i = int (length (bh @ dib @ m))
          \<and> take (nat (dir_blockSize out i)) (drop (nat (dir_fileOffset out i)) out)
              = bh @ dib @ m)"
proof -
  note e = generateIco_then_entry [OF assms(1)]
  have first: "dir_fileOffset out i = 6 + 16 * int (length imgs)" if "i = 0"
    using e [OF assms(2)] that by simp
  have later: "dir_fileOffset out i = dir_fileOffset out (i - 1) + dir_blockSize out (i - 1)"
    if pos: "0 < i"
  proof -
    obtain j where j: "i = Suc j" using pos by (cases i) auto
    then have jl: "j < length imgs" using assms(2) by simp
    have t: "take (Suc j) imgs = take j imgs @ [imgs ! j]"
      using jl by (rule take_Suc_conv_app_nth)
    have "dir_fileOffset out (Suc j)
          = 6 + 16 * int (length imgs) + sum_list (map block_size (take (Suc j) imgs))"
      using e [OF assms(2)] unfolding j by (rule conjunct1 [OF conjunct2])
    also have "\<dots> = (6 + 16 * int (length imgs) + sum_list (map block_size (take j imgs)))
                     + block_size (imgs ! j)"
      unfolding t by simp
    also have "\<dots> = dir_fileOffset out j + dir_blockSize out j"
      using e [OF jl] by simp
    finally show ?thesis unfolding j by simp
  qed
  from e [OF assms(2)] first later show ?thesis by blast
qed

lemma example_encoded: "generateIco_then example_images = Inr example_ico"
  by code_simp

theorem generateIco_layout_witness:
  "generateIco_then example_images = Inr example_ico
   \<and> (\<exists>header dirs blocks.
          createHeader (length example_images) = Inr header \<and> length header = 6
        \<and> length dirs = length example_images
        \<and> (\<forall>i<length example_images. length (dirs ! i) = 16
              \<and> (\<exists>off. createDirectory (example_images ! i) off
                          = Inr (dirs ! i, block_size (example_images ! i))))
        \<and> list_all2 (\<lambda>x p. createBlock x = Inr p) example_images blocks
        \<and> example_ico = header @ concat dirs
                           @ concat (map (\<lambda>(bh, dib, m). bh @ dib @ m) blocks)
        \<and> length example_ico = 6 + 16 * length example_images
             + sum_list (map (\<lambda>(bh, dib, m). 40 + length dib + length m) blocks))"
proof (rule conjI)
  show a: "generateIco_then example_images = Inr example_ico" by (rule example_encoded)
  show "\<exists>header dirs blocks.
          createHeader (length example_images) = Inr header \<and> length header = 6
        \<and> length dirs = length example_images
        \<and> (\<forall>i<length example_images. length (dirs ! i) = 16
              \<and> (\<exists>off. createDirectory (example_images ! i) off
                          = Inr (dirs ! i, block_size (example_images ! i))))
        \<and> list_all2 (\<lambda>x p. createBlock x = Inr p) example_images blocks
        \<and> example_ico = header @ concat dirs
                           @ concat (map (\<lambda>(bh, dib, m). bh @ dib @ m) blocks)
        \<and> length example_ico = 6 + 16 * length example_images
             + sum_list (map (\<lambda>(bh, dib, m). 40 + length dib + length m) blocks)"
    using mp [OF conjunct1 [OF generateIco_layout] a] .
qed

theorem directory_offsets_witness:
  "generateIco_then example_images = Inr example_ico \<and> 1 < length example_images
   \<and> dir_fileOffset example_ico 1 = dir_fileOffset example_ico 0 + dir_blockSize example_ico 0
   \<and> (\<exists>bh dib m. createBlock (example_images ! 1) = Inr (bh, dib, m)
          \<and> dir_blockSize example_ico 1 = int (length (bh @ dib @ m))
          \<and> take (nat (dir_blockSize example_ico 1)) (drop (nat (dir_fileOffset example_ico 1)) example_ico)
              = bh @ dib @ m)"
proof -
  have l: "1 < length example_images" by (simp add: example_images_def)
  note t = directory_offsets [OF example_encoded l]
  from conjunct1 [OF conjunct2 [OF t]]
  have a: "dir_fileOffset example_ico 1
      = dir_fileOffset example_ico 0 + dir_blockSize example_ico 0"
    by simp
  note b = conjunct2 [OF conjunct2 [OF conjunct2 [OF t]]]
  show ?thesis
    by (intro conjI) (rule example_encoded, rule l, rule a, rule b)
qed

section \<open>Failures of the encoder\<close>

lemma range_Inr [simp]: "range_error_only (Inr v)"
  by (simp add: range_error_only_def)

lemma range_Inl [simp]: "range_error_only (Inl ERR_OUT_OF_RANGE)"
  by (simp add: range_error_only_def)

lemma range_bind:
  assumes "range_error_only m" "\<And>v. range_error_only (f v)"
  shows "range_error_only (bind_err m f)"
  using assms by (cases m) (auto simp: range_error_only_def)

lemma range_bind_pair:
  assumes "range_error_only m" "\<And>a b. range_error_only (f a b)"
  shows "range_error_only (bind_err m (\<lambda>(a, b). f a b))"
  using assms by (intro range_bind) (auto split: prod.splits)

lemma range_if:
  assumes "c \<Longrightarrow> range_error_only a" "\<not> c \<Longrightarrow> range_error_only b"
  shows "range_error_only (if c then a else b)"
  using assms by simp

lemma range_readUInt8: "range_error_only (readUInt8 buf off)"
  by (simp add: readUInt8_def)

lemma range_writeUInt8: "range_error_only (writeUInt8 v off buf)"
  by (simp add: writeUInt8_def)

lemma range_writeUInt16LE: "range_error_only (writeUInt16LE v off buf)"
  by (simp add: writeUInt16LE_def)

lemma range_writeUInt32LE: "range_error_only (writeUInt32LE v off buf)"
  by (simp add: writeUInt32LE_def)

lemma range_writeInt32LE: "range_error_only (writeInt32LE v off buf)"
  by (simp add: writeInt32LE_def)

lemmas range_prims = range_readUInt8 range_writeUInt8 range_writeUInt16LE
  range_writeUInt32LE range_writeInt32LE

lemma range_createHeader: "range_error_only (createHeader n)"
  unfolding createHeader_def by (intro range_bind range_prims)

lemma range_createDirectory: "range_error_only (createDirectory x off)"
  unfolding createDirectory_alt by (intro range_bind range_prims range_Inr)

lemma range_createBitmap: "range_error_only (createBitmap x c)"
  unfolding createBitmap_def by (intro range_bind range_prims)

lemma range_createDib: "range_error_only (createDib dat w h b)"
  unfolding range_error_only_def by (auto dest: createDib_error)

lemma range_createMask_full: "range_error_only (createMask_full dat w t x srcPos dstPos buf)"
proof (induction dat w t x srcPos dstPos buf rule: createMask_full.induct)
  case (1 dat w t x srcPos dstPos buf)
  show ?case
  proof (cases "int x < int w - 7")
    case True
    show ?thesis
      unfolding createMask_full_alt [of dat w t x srcPos dstPos buf] if_P [OF True]
      by (intro range_bind range_prims "1.IH" [OF True])
  next
    case False
    then show ?thesis
      unfolding createMask_full_alt [of dat w t x srcPos dstPos buf] by simp
  qed
qed

lemma range_createMask_rest: "range_error_only (createMask_rest dat w t x srcPos msk)"
proof (induction dat w t x srcPos msk rule: createMask_rest.induct)
  case (1 dat w t x srcPos msk)
  show ?case
  proof (cases "x < w mod 8")
    case True
    show ?thesis
      unfolding createMask_rest.simps [of dat w t x srcPos msk] if_P [OF True]
      by (intro range_bind range_prims "1.IH" [OF True])
  next
    case False
    then show ?thesis
      unfolding createMask_rest.simps [of dat w t x srcPos msk] by simp
  qed
qed

lemma range_createMask_row: "range_error_only (createMask_row dat w t sw y srcPos buf)"
  unfolding createMask_row_def
  by (intro range_bind range_createMask_full)
     (auto split: prod.splits intro!: range_bind range_createMask_rest range_prims)

lemma range_createMask_rows: "range_error_only (createMask_rows dat w h t sw y srcPos buf)"
proof (induction "h - y" arbitrary: y srcPos buf)
  case 0
  then show ?case by (simp add: createMask_rows_stop)
next
  case (Suc n)
  then have y: "y < h" by simp
  have n: "n = h - (y + 1)" using Suc.hyps(2) by simp
  show ?case
    unfolding createMask_rows_unfold [OF y]
    by (intro range_bind_pair range_createMask_row Suc.hyps(1) [OF n])
qed

lemma range_createMask: "range_error_only (createMask dat w h t)"
  unfolding createMask_def Let_def by (intro range_if range_Inl range_createMask_rows)

lemma range_createBlock: "range_error_only (createBlock x)"
  unfolding createBlock_def
  by (intro range_bind range_createBitmap range_createDib range_if range_createMask range_Inr)

lemma range_generateIco_dirs: "range_error_only (generateIco_dirs xs arr len off)"
proof (induction xs arbitrary: arr len off)
  case Nil
  show ?case by simp
next
  case (Cons x xs)
  show ?case
    unfolding generateIco_dirs.simps
    by (intro range_bind_pair range_createDirectory Cons.IH)
qed

lemma range_generateIco_blocks: "range_error_only (generateIco_blocks xs arr len)"
proof (induction xs arbitrary: arr len)
  case Nil
  show ?case by simp
next
  case (Cons x xs)
  show ?case
    unfolding generateIco_blocks.simps
    by (intro range_bind range_createBlock) (auto split: prod.splits intro: Cons.IH)
qed

lemma range_generateIco_then: "range_error_only (generateIco_then imgs)"
  unfolding generateIco_then_def
  by (intro range_bind range_createHeader)
     (auto split: prod.splits
           intro!: range_bind range_generateIco_dirs range_generateIco_blocks)

lemma generateIco_then_blocks:
  assumes "generateIco_then imgs = Inr out" "x \<in> set imgs"
  shows "\<exists>bh dib m. createBlock x = Inr (bh, dib, m)"
proof -
  from generateIco_then_Inr [OF assms(1)] obtain parts where
    p: "list_all2 (\<lambda>x p. createBlock x = Inr p) imgs parts" by blast
  from assms(2) obtain i where i: "i < length imgs" "imgs ! i = x"
    by (auto simp: in_set_conv_nth)
  from list_all2_nthD [OF p i(1)] i(2) have "createBlock x = Inr (parts ! i)" by simp
  then show ?thesis by (cases "parts ! i") auto
qed

text \<open>
  C5, as stated, fails. The encoder checks neither the length of a pixel buffer nor the
  number of bytes per pixel, and it has no error of its own. An image of 1 by 2 pixels and
  three bytes per pixel with a buffer of 8 bytes (what a decoder that always returns four
  bytes per pixel gives for a 24-bit image) is encoded although 8 is not 1 times 2 times 3;
  an image of one byte per pixel (what such a decoder gives for a greyscale image, again
  with four bytes per pixel in the buffer) is encoded although 1 is neither 3 nor 4.
\<close>

theorem encode_rejects_mismatch_counterexample:
  "length [1, 2, 3, 255, 4, 5, 6, 255 :: byte] \<noteq> 1 * 2 * 3
   \<and> generateIco_then [\<lparr>width = 1, height = 2, bpp = 3, data = [1, 2, 3, 255, 4, 5, 6, 255]\<rparr>]
   = Inr [0, 0, 1, 0, 1, 0,
          1, 2, 0, 0, 1, 0, 24, 0, 48, 0, 0, 0, 22, 0, 0, 0,
          40, 0, 0, 0, 1, 0, 0, 0, 4, 0, 0, 0, 1, 0, 24, 0, 0, 0, 0, 0, 8, 0, 0, 0,
          0, 0, 0, 0, 0, 0, 0, 0, 0, 0, 0, 0, 0, 0, 0, 0,
          5, 4, 255, 6, 2, 1, 255, 0]
   \<and> generateIco_then [\<lparr>width = 1, height = 1, bpp = 1, data = [7, 7, 7, 255]\<rparr>]
   = Inr [0, 0, 1, 0, 1, 0,
          1, 1, 0, 0, 1, 0, 8, 0, 44, 0, 0, 0, 22, 0, 0, 0,
          40, 0, 0, 0, 1, 0, 0, 0, 2, 0, 0, 0, 1, 0, 8, 0, 0, 0, 0, 0, 4, 0, 0, 0,
          0, 0, 0, 0, 0, 0, 0, 0, 0, 0, 0, 0, 0, 0, 0, 0,
          7, 7, 7, 255]"
  by code_simp

text \<open>
  C5, as the code has it. What stops the encoder is a buffer access out of range, in the
  transposer, which reads four bytes at every pixel. When an image of positive dimensions
  and at least one byte per pixel has a pixel buffer that ends before the fourth byte read
  at the last pixel, that is a buffer of fewer than width times height times bytes per
  pixel, plus 4, minus bytes per pixel, bytes, the encoder fails with that error, and a
  failure carries no buffer. At one to four bytes per pixel this is the case of every
  buffer shorter than width times height times bytes per pixel.
\<close>

theorem encode_short_buffer_fails:
  assumes "x \<in> set imgs" "0 < bpp x" "0 < width x" "0 < height x"
    "length (data x) < width x * height x * bpp x \<and> bpp x \<le> 4
     \<or> length (data x) + bpp x < width x * height x * bpp x + 4"
  shows "generateIco_then imgs = Inl ERR_OUT_OF_RANGE"
proof (cases "generateIco_then imgs")
  case (Inl e)
  then show ?thesis using range_generateIco_then [of imgs] by (simp add: range_error_only_def)
next
  case (Inr out)
  from generateIco_then_blocks [OF Inr assms(1)] obtain bh dib m where
    "createBlock x = Inr (bh, dib, m)" by blast
  from createBlock_Inr(2) [OF this]
  have "createDib (data x) (width x) (height x) (bpp x) = Inr dib" .
  from createDib_needs [OF this assms(3,4,2)]
  have "width x * height x * bpp x + 4 \<le> length (data x) + bpp x" .
  with assms(5) show ?thesis by linarith
qed

theorem encode_short_buffer_fails_witness:
  "\<lparr>width = 1, height = 2, bpp = 3, data = [1, 2, 3, 4, 5]\<rparr>
      \<in> set [\<lparr>width = 1, height = 1, bpp = 4, data = [1, 2, 3, 255]\<rparr>,
              \<lparr>width = 1, height = 2, bpp = 3, data = [1, 2, 3, 4, 5]\<rparr>]
   \<and> length [1, 2, 3, 4, 5 :: byte] < 1 * 2 * 3
   \<and> generateIco_then [\<lparr>width = 1, height = 1, bpp = 4, data = [1, 2, 3, 255]\<rparr>,
                        \<lparr>width = 1, height = 2, bpp = 3, data = [1, 2, 3, 4, 5]\<rparr>]
       = Inl ERR_OUT_OF_RANGE"
  using encode_short_buffer_fails
    [of "\<lparr>width = 1, height = 2, bpp = 3, data = [1, 2, 3, 4, 5]\<rparr>"
        "[\<lparr>width = 1, height = 1, bpp = 4, data = [1, 2, 3, 255]\<rparr>,
          \<lparr>width = 1, height = 2, bpp = 3, data = [1, 2, 3, 4, 5]\<rparr>]"]
  by simp

section \<open>Resizing\<close>







lemma toIco_Inr:
  assumes "toIco parsePng imageSize resizeImg input opts = Inr out"
  shows "\<exists>srcs imgs. Promise_all (map parsePng srcs) = Inr imgs \<and> generateIco_then imgs = Inr out
    \<and> (resize opts = Some True \<longrightarrow>
          resizeImages imageSize resizeImg input
            (case sizes opts of None \<Rightarrow> [16, 24, 32, 48, 64, 128, 256] | Some s \<Rightarrow> s) = Inr srcs)"
  using assms unfolding toIco_def Let_def generateIco_def
  by (auto simp: bind_err_eq_Inr split: if_splits option.splits)



text \<open>
  C9, as the code has it. The threshold of the mask is the constant 1. The entry point reads
  nothing but \<open>resize\<close> and \<open>sizes\<close> from the options: whatever \<open>maskThreshold\<close> they carry,
  the returned buffer is the same, and the mask in the block of every image of four bytes
  per pixel is the one \<open>createMask\<close> makes with the threshold 1.
\<close>

theorem mask_threshold_fixed:
  fixes opts :: "'a options_mt_scheme"
  assumes "toIco parsePng imageSize resizeImg input opts = Inr out"
  shows "toIco parsePng imageSize resizeImg input (opts\<lparr>maskThreshold := t\<rparr>) = Inr out
    \<and> (\<exists>imgs. generateIco_then imgs = Inr out
          \<and> (\<forall>i<length imgs. bpp (imgs ! i) = 4 \<longrightarrow>
                (\<exists>bh dib m.
                    take (nat (dir_blockSize out i)) (drop (nat (dir_fileOffset out i)) out)
                      = bh @ dib @ m
                  \<and> length bh = 40
                  \<and> createDib (data (imgs ! i)) (width (imgs ! i)) (height (imgs ! i)) 4 = Inr dib
                  \<and> createMask dib (width (imgs ! i)) (height (imgs ! i)) 1 = Inr m)))"
proof (rule conjI)
  show "toIco parsePng imageSize resizeImg input (opts\<lparr>maskThreshold := t\<rparr>) = Inr out"
    using assms by (simp add: toIco_def)
  from toIco_Inr [OF assms] obtain imgs where g: "generateIco_then imgs = Inr out"
    by blast
  have "\<exists>bh dib m.
            take (nat (dir_blockSize out i)) (drop (nat (dir_fileOffset out i)) out)
              = bh @ dib @ m
          \<and> length bh = 40
          \<and> createDib (data (imgs ! i)) (width (imgs ! i)) (height (imgs ! i)) 4 = Inr dib
          \<and> createMask dib (width (imgs ! i)) (height (imgs ! i)) 1 = Inr m"
    if i: "i < length imgs" and b: "bpp (imgs ! i) = 4" for i
  proof -
    from generateIco_then_entry [OF g i] obtain bh dib m where
      cb: "createBlock (imgs ! i) = Inr (bh, dib, m)" and
      blk: "take (nat (dir_blockSize out i)) (drop (nat (dir_fileOffset out i)) out)
              = bh @ dib @ m"
      by blast
    have "length bh = 40" using createBlock_Inr(1) [OF cb] by simp
    moreover have "createDib (data (imgs ! i)) (width (imgs ! i)) (height (imgs ! i)) 4 = Inr dib"
      using createBlock_Inr(2) [OF cb] b by simp
    moreover have "createMask dib (width (imgs ! i)) (height (imgs ! i)) 1 = Inr m"
      using createBlock_Inr(4) [OF cb b] .
    ultimately show ?thesis using blk by blast
  qed
  then show "\<exists>imgs. generateIco_then imgs = Inr out
          \<and> (\<forall>i<length imgs. bpp (imgs ! i) = 4 \<longrightarrow>
                (\<exists>bh dib m.
                    take (nat (dir_blockSize out i)) (drop (nat (dir_fileOffset out i)) out)
                      = bh @ dib @ m
                  \<and> length bh = 40
                  \<and> createDib (data (imgs ! i)) (width (imgs ! i)) (height (imgs ! i)) 4 = Inr dib
                  \<and> createMask dib (width (imgs ! i)) (height (imgs ! i)) 1 = Inr m))"
    using g by blast
qed

lemma example_threshold_run:
  "toIco decoded_parsePng decoded_imageSize solid_resizeImg
     [\<lparr>width = 1, height = 1, bpp = 4, data = [1, 2, 3, 1]\<rparr>]
     \<lparr>resize = None, sizes = None, maskThreshold = 2\<rparr>
   = Inr [0, 0, 1, 0, 1, 0,
          1, 1, 0, 0, 1, 0, 32, 0, 48, 0, 0, 0, 22, 0, 0, 0,
          40, 0, 0, 0, 1, 0, 0, 0, 2, 0, 0, 0, 1, 0, 32, 0, 0, 0, 0, 0, 4, 0, 0, 0,
          0, 0, 0, 0, 0, 0, 0, 0, 0, 0, 0, 0, 0, 0, 0, 0,
          3, 2, 1, 1,
          0, 0, 0, 0]"
  by code_simp

theorem mask_threshold_fixed_witness:
  "toIco decoded_parsePng decoded_imageSize solid_resizeImg
     [\<lparr>width = 1, height = 1, bpp = 4, data = [1, 2, 3, 1]\<rparr>]
     \<lparr>resize = None, sizes = None, maskThreshold = 2\<rparr>
   = Inr [0, 0, 1, 0, 1, 0,
          1, 1, 0, 0, 1, 0, 32, 0, 48, 0, 0, 0, 22, 0, 0, 0,
          40, 0, 0, 0, 1, 0, 0, 0, 2, 0, 0, 0, 1, 0, 32, 0, 0, 0, 0, 0, 4, 0, 0, 0,
          0, 0, 0, 0, 0, 0, 0, 0, 0, 0, 0, 0, 0, 0, 0, 0,
          3, 2, 1, 1,
          0, 0, 0, 0]
   \<and> toIco decoded_parsePng decoded_imageSize solid_resizeImg
     [\<lparr>width = 1, height = 1, bpp = 4, data = [1, 2, 3, 1]\<rparr>]
     (\<lparr>resize = None, sizes = None, maskThreshold = 2\<rparr>\<lparr>maskThreshold := 200\<rparr>)
   = Inr [0, 0, 1, 0, 1, 0,
          1, 1, 0, 0, 1, 0, 32, 0, 48, 0, 0, 0, 22, 0, 0, 0,
          40, 0, 0, 0, 1, 0, 0, 0, 2, 0, 0, 0, 1, 0, 32, 0, 0, 0, 0, 0, 4, 0, 0, 0,
          0, 0, 0, 0, 0, 0, 0, 0, 0, 0, 0, 0, 0, 0, 0, 0,
          3, 2, 1, 1,
          0, 0, 0, 0]"
  by (intro conjI)
     (rule example_threshold_run,
      rule conjunct1 [OF mask_threshold_fixed [OF example_threshold_run]])

text \<open>
  C9, as stated, fails: with \<open>maskThreshold = 2\<close> in the options, a pixel of alpha 1 gets a
  clear mask bit, where a comparison against 2 would have set it.
\<close>

theorem mask_threshold_counterexample:
  "toIco decoded_parsePng decoded_imageSize solid_resizeImg
     [\<lparr>width = 1, height = 1, bpp = 4, data = [1, 2, 3, 1]\<rparr>]
     \<lparr>resize = None, sizes = None, maskThreshold = 2\<rparr>
   = Inr ([0, 0, 1, 0, 1, 0,
          1, 1, 0, 0, 1, 0, 32, 0, 48, 0, 0, 0, 22, 0, 0, 0,
          40, 0, 0, 0, 1, 0, 0, 0, 2, 0, 0, 0, 1, 0, 32, 0, 0, 0, 0, 0, 4, 0, 0, 0,
          0, 0, 0, 0, 0, 0, 0, 0, 0, 0, 0, 0, 0, 0, 0, 0]
          @ [3, 2, 1, 1] @ [0, 0, 0, 0])
   \<and> createMask [3, 2, 1, 1] 1 1 2 = Inr [128, 0, 0, 0]"
  by code_simp

section \<open>Valid images of four bytes per pixel are accepted\<close>







section \<open>Resizing through the entry point\<close>











end
